theory Spec2Isabelle
  imports Main
begin

section \<open>Data model of \<^verbatim>\<open>TemporalS.c\<close>\<close>

text \<open>
  A \<^verbatim>\<open>TimestampTz\<close> is a signed 64-bit count of microseconds. The functions of
  \<^verbatim>\<open>TemporalS.c\<close> only compare timestamps (\<^verbatim>\<open>timestamp_cmp_internal\<close>) and copy them;
  the one place that computes with them goes through PostgreSQL's
  \<^verbatim>\<open>timestamptz_pl_interval\<close>, which is a parameter below. Timestamps are therefore
  integers with their usual order. A \<^verbatim>\<open>Datum\<close> is an opaque machine word that is copied
  and handed to \<^verbatim>\<open>datum_ne\<close> and friends; it is an integer here as well.
\<close>

type_synonym TimestampTz = int
type_synonym Datum = int

text \<open>
  Type identifiers. \<^verbatim>\<open>INT4OID\<close> and \<^verbatim>\<open>FLOAT8OID\<close> are PostgreSQL constants; the
  identifiers of the PostGIS types are looked up with \<^verbatim>\<open>type_oid(T_GEOMETRY)\<close> and
  \<^verbatim>\<open>type_oid(T_GEOGRAPHY)\<close>, which is a constructor here so that the source's
  comparisons read the same.
\<close>

datatype CachedType = T_GEOMETRY | T_GEOGRAPHY

datatype Oid = INT4OID | FLOAT8OID | type_oid CachedType | OTHEROID nat

record Period =
  lower :: TimestampTz
  upper :: TimestampTz
  lower_inc :: bool
  upper_inc :: bool

record TemporalInst =
  temporalinst_value :: Datum
  inst_t :: TimestampTz

text \<open>
  A \<^verbatim>\<open>TemporalSeq\<close>: its instants (\<^verbatim>\<open>seq->count\<close> is their number), its period, its
  value type and the two flags the sequence-set constructor reads. The SRID that
  \<^verbatim>\<open>tpoint_srid_internal\<close> extracts from a sequence of geometries is a field.
\<close>

record TemporalSeq =
  instants :: "TemporalInst list"
  period :: Period
  seq_valuetypid :: Oid
  seq_continuous :: bool
  seq_hasz :: bool
  seq_srid :: int

text \<open>The bounding box of a temporal number: value extent in \<open>x\<close>, time extent in \<open>y\<close>.\<close>

record BOX =
  low_x :: Datum
  high_x :: Datum
  low_y :: TimestampTz
  high_y :: TimestampTz

text \<open>
  A \<^verbatim>\<open>TemporalS\<close>: the packed sequences (\<^verbatim>\<open>ts->count\<close> is their number), the value
  type, the flags and the cached bounding box (absent for the types whose
  \<^verbatim>\<open>temporal_bbox_size\<close> is zero).
\<close>

record TemporalS =
  sequences :: "TemporalSeq list"
  ts_valuetypid :: Oid
  ts_continuous :: bool
  ts_tempcontinuous :: bool
  ts_hasz :: bool
  bbox :: "BOX option"

definition ts_count :: "TemporalS \<Rightarrow> int" where
  "ts_count ts = int (length (sequences ts))"

definition seq_count :: "TemporalSeq \<Rightarrow> int" where
  "seq_count seq = int (length (instants seq))"

text \<open>\<^verbatim>\<open>temporals_seq_n(ts, index)\<close>, used below only under a guard \<open>0 \<le> index < count\<close>.\<close>

definition temporals_seq_n :: "TemporalS \<Rightarrow> int \<Rightarrow> TemporalSeq" where
  "temporals_seq_n ts index = sequences ts ! nat index"

definition temporalseq_inst_n :: "TemporalSeq \<Rightarrow> int \<Rightarrow> TemporalInst" where
  "temporalseq_inst_n seq index = instants seq ! nat index"

section \<open>Period primitives\<close>

text \<open>
  \<^verbatim>\<open>timestamp_cmp_internal(a, b)\<close> is PostgreSQL's three-way comparison of two
  timestamps: negative, zero or positive.
\<close>

definition timestamp_cmp_internal :: "TimestampTz \<Rightarrow> TimestampTz \<Rightarrow> int" where
  "timestamp_cmp_internal dt1 dt2 = (if dt1 < dt2 then - 1 else if dt1 > dt2 then 1 else 0)"

text \<open>
  Modelled from the spec: \<^verbatim>\<open>contains_period_timestamp_internal\<close> lives in the period
  module, which is not part of the sources at hand. A period contains a timestamp
  inclusive of its own bound flags.
\<close>

definition contains_period_timestamp_internal :: "Period \<Rightarrow> TimestampTz \<Rightarrow> bool" where
  "contains_period_timestamp_internal p t =
     ((lower p < t \<or> (lower p = t \<and> lower_inc p)) \<and>
      (t < upper p \<or> (t = upper p \<and> upper_inc p)))"

section \<open>Binary search of a timestamp\<close>

text \<open>
  The loop of \<^verbatim>\<open>temporals_find_timestamp\<close>. Its state is \<open>first\<close>, \<open>last1\<close> (the
  source's \<^verbatim>\<open>last\<close>), \<open>middle\<close> and the sequence looked at last (\<open>None\<close> stands for the initial \<^verbatim>\<open>NULL\<close>). The code
  after the loop reads \<^verbatim>\<open>seq->period.upper\<close>: with no sequence at all that is a read
  through \<^verbatim>\<open>NULL\<close>, the result \<open>None\<close> here. \<open>first + last1\<close> is never negative, so the
  C division by two is \<open>div\<close>.
\<close>

function find_timestamp_loop ::
  "TemporalS \<Rightarrow> TimestampTz \<Rightarrow> int \<Rightarrow> int \<Rightarrow> int \<Rightarrow> TemporalSeq option \<Rightarrow> (bool \<times> int) option"
where
  "find_timestamp_loop ts t first last1 middle seq =
     (if first \<le> last1 then
        (let middle = (first + last1) div 2;
             seq = temporals_seq_n ts middle
         in if contains_period_timestamp_internal (period seq) t then Some (True, middle)
            else if timestamp_cmp_internal t (lower (period seq)) \<le> 0
              then find_timestamp_loop ts t first (middle - 1) middle (Some seq)
              else find_timestamp_loop ts t (middle + 1) last1 middle (Some seq))
      else
        (case seq of
           None \<Rightarrow> None
         | Some seq \<Rightarrow>
             if timestamp_cmp_internal t (upper (period seq)) \<ge> 0
             then Some (False, middle + 1)
             else Some (False, middle)))"
  by pat_completeness auto
termination
  by (relation "measure (\<lambda>(ts, t, first, last1, middle, seq). nat (last1 - first + 1))") auto

declare find_timestamp_loop.simps [simp del]

definition temporals_find_timestamp :: "TemporalS \<Rightarrow> TimestampTz \<Rightarrow> (bool \<times> int) option" where
  "temporals_find_timestamp ts t = find_timestamp_loop ts t 0 (ts_count ts - 1) 0 None"

section \<open>Intersection with a timestamp\<close>

text \<open>\<^verbatim>\<open>temporals_intersects_timestamp\<close>: the result of the search decides the answer.\<close>

definition temporals_intersects_timestamp :: "TemporalS \<Rightarrow> TimestampTz \<Rightarrow> bool option" where
  "temporals_intersects_timestamp ts t =
     (case temporals_find_timestamp ts t of
        None \<Rightarrow> None
      | Some (found, n) \<Rightarrow> if found then Some False else Some True)"

section \<open>Validity of a sequence set\<close>

text \<open>
  The invariants of the data model, as executable predicates. A period has
  \<open>lower \<le> upper\<close>, and both bounds inclusive when they are equal. Two consecutive
  sequences are rejected by the constructor when the first ends after the second
  starts, or when they touch with both bounds inclusive.
\<close>

definition period_valid :: "Period \<Rightarrow> bool" where
  "period_valid p = (lower p < upper p \<or> (lower p = upper p \<and> lower_inc p \<and> upper_inc p))"

definition invalid_pair :: "TemporalSeq \<Rightarrow> TemporalSeq \<Rightarrow> bool" where
  "invalid_pair s1 s2 =
     (timestamp_cmp_internal (upper (period s1)) (lower (period s2)) > 0 \<or>
      (timestamp_cmp_internal (upper (period s1)) (lower (period s2)) = 0 \<and>
       upper_inc (period s1) \<and> lower_inc (period s2)))"

fun seqs_ordered :: "TemporalSeq list \<Rightarrow> bool" where
  "seqs_ordered [] = True"
| "seqs_ordered [s] = True"
| "seqs_ordered (s1 # s2 # rest) = (\<not> invalid_pair s1 s2 \<and> seqs_ordered (s2 # rest))"

definition valid_sequences :: "TemporalSeq list \<Rightarrow> bool" where
  "valid_sequences seqs =
     (seqs \<noteq> [] \<and> list_all (\<lambda>s. period_valid (period s)) seqs \<and> seqs_ordered seqs)"

text \<open>
  What the search promises about the sequences it did not select. A period lies before
  \<open>t\<close> when it ends before \<open>t\<close>, or ends at \<open>t\<close> with an exclusive upper bound; it
  lies after \<open>t\<close> when it starts after \<open>t\<close>, or starts at \<open>t\<close> with an exclusive lower
  bound.
\<close>

definition period_before :: "Period \<Rightarrow> TimestampTz \<Rightarrow> bool" where
  "period_before p t = (upper p < t \<or> (upper p = t \<and> \<not> upper_inc p))"

definition period_after :: "Period \<Rightarrow> TimestampTz \<Rightarrow> bool" where
  "period_after p t = (t < lower p \<or> (t = lower p \<and> \<not> lower_inc p))"

definition find_post :: "TemporalS \<Rightarrow> TimestampTz \<Rightarrow> bool \<Rightarrow> int \<Rightarrow> bool" where
  "find_post ts t found pos =
     (if found then 0 \<le> pos \<and> pos < ts_count ts \<and>
           contains_period_timestamp_internal (period (temporals_seq_n ts pos)) t
      else 0 \<le> pos \<and> pos \<le> ts_count ts \<and>
           (\<forall>i. 0 \<le> i \<and> i < pos \<longrightarrow> period_before (period (temporals_seq_n ts i)) t) \<and>
           (\<forall>i. pos \<le> i \<and> i < ts_count ts \<longrightarrow> period_after (period (temporals_seq_n ts i)) t))"

section \<open>Construction from an array of sequences\<close>

text \<open>
  The errors \<^verbatim>\<open>temporals_from_temporalseqarr\<close> raises with \<^verbatim>\<open>ereport(ERROR, ...)\<close>, one
  constructor for each message. The first two are the invalid sequence set of the
  specification; the last two exist in a build \<^verbatim>\<open>WITH_POSTGIS\<close> only.
\<close>

datatype error =
    NoSequence \<comment> \<open>A temporal sequence set must have at least one temporal sequence\<close>
  | InvalidSequence \<comment> \<open>Invalid sequence for temporal sequence set\<close>
  | DifferentSrid \<comment> \<open>All geometries composing a temporal point must be of the same srid\<close>
  | DifferentDimensionality
      \<comment> \<open>All geometries composing a temporal point must be of the same dimensionality\<close>
  | OutOfBoundsRead
      \<comment> \<open>not an \<^verbatim>\<open>ereport\<close>: the code reads an element that the array does not hold\<close>

definition InvalidSequenceSet :: "error \<Rightarrow> bool" where
  "InvalidSequenceSet e = (e = NoSequence \<or> e = InvalidSequence)"

text \<open>
  The validation loop \<^verbatim>\<open>for (int i = 1; i < count; i++)\<close>: \<open>prev\<close> is
  \<^verbatim>\<open>sequences[i-1]\<close>, the head of the list is \<^verbatim>\<open>sequences[i]\<close>, and the accumulator is
  \<^verbatim>\<open>tempcontinuous\<close>. The first argument says whether the build is \<^verbatim>\<open>WITH_POSTGIS\<close>.
\<close>

fun validate_sequences ::
  "bool \<Rightarrow> bool \<Rightarrow> bool \<Rightarrow> int \<Rightarrow> TemporalSeq \<Rightarrow> TemporalSeq list \<Rightarrow> bool \<Rightarrow> error + bool"
where
  "validate_sequences with_postgis isgeo hasz srid prev [] tempcontinuous = Inr tempcontinuous"
| "validate_sequences with_postgis isgeo hasz srid prev (cur # rest) tempcontinuous =
     (if timestamp_cmp_internal (upper (period prev)) (lower (period cur)) > 0 \<or>
         (timestamp_cmp_internal (upper (period prev)) (lower (period cur)) = 0 \<and>
          upper_inc (period prev) \<and> lower_inc (period cur))
      then Inl InvalidSequence
      else
        (let tempcontinuous = (tempcontinuous \<and>
               (timestamp_cmp_internal (upper (period prev)) (lower (period cur)) = 0 \<and>
                (upper_inc (period prev) \<or> lower_inc (period cur))))
         in if with_postgis \<and> isgeo \<and> seq_srid cur \<noteq> srid then Inl DifferentSrid
            else if with_postgis \<and> isgeo \<and> seq_hasz cur \<noteq> hasz
              then Inl DifferentDimensionality
            else validate_sequences with_postgis isgeo hasz srid cur rest tempcontinuous))"

text \<open>
  Modelled from the spec: \<^verbatim>\<open>temporalseqarr_normalize\<close> belongs to the sequence module,
  which is not part of the sources at hand. Adjacent sequences whose trailing and
  leading instant values agree and whose periods share a boundary that one of them
  includes are merged into a single longer sequence.
\<close>

definition mergeable :: "TemporalSeq \<Rightarrow> TemporalSeq \<Rightarrow> bool" where
  "mergeable s1 s2 =
     (instants s1 \<noteq> [] \<and> instants s2 \<noteq> [] \<and>
      upper (period s1) = lower (period s2) \<and>
      (upper_inc (period s1) \<or> lower_inc (period s2)) \<and>
      temporalinst_value (last (instants s1)) = temporalinst_value (hd (instants s2)))"

definition temporalseq_join :: "TemporalSeq \<Rightarrow> TemporalSeq \<Rightarrow> TemporalSeq" where
  "temporalseq_join s1 s2 =
     s1\<lparr>instants := instants s1 @ tl (instants s2),
        period := \<lparr>lower = lower (period s1), upper = upper (period s2),
                   lower_inc = lower_inc (period s1), upper_inc = upper_inc (period s2)\<rparr>\<rparr>"

function temporalseqarr_normalize :: "TemporalSeq list \<Rightarrow> TemporalSeq list" where
  "temporalseqarr_normalize [] = []"
| "temporalseqarr_normalize [s] = [s]"
| "temporalseqarr_normalize (s1 # s2 # rest) =
     (if mergeable s1 s2 then temporalseqarr_normalize (temporalseq_join s1 s2 # rest)
      else s1 # temporalseqarr_normalize (s2 # rest))"
  by pat_completeness auto
termination
  by (relation "measure length") auto

text \<open>
  Modelled from the spec: \<^verbatim>\<open>temporal_bbox_size\<close> and \<^verbatim>\<open>temporals_make_bbox\<close> belong to
  the bounding-box module, which is not part of the sources at hand. Only whether the
  size is zero matters to the constructor: the external types have a precomputed box,
  the internal ones have none. The box is the union of the value extents and of the
  time extents of the sequences, taken over their instants.
\<close>

definition temporal_bbox_size :: "Oid \<Rightarrow> nat" where
  "temporal_bbox_size valuetypid = (case valuetypid of OTHEROID n \<Rightarrow> 0 | _ \<Rightarrow> 32)"

fun min_list1 :: "int \<Rightarrow> int list \<Rightarrow> int" where
  "min_list1 m [] = m"
| "min_list1 m (x # xs) = min_list1 (min m x) xs"

fun max_list1 :: "int \<Rightarrow> int list \<Rightarrow> int" where
  "max_list1 m [] = m"
| "max_list1 m (x # xs) = max_list1 (max m x) xs"

definition temporals_make_bbox :: "TemporalSeq list \<Rightarrow> BOX" where
  "temporals_make_bbox seqs =
     (let insts = concat (map instants seqs);
          vs = map temporalinst_value insts;
          tms = map inst_t insts
      in \<lparr>low_x = min_list1 (hd vs) vs, high_x = max_list1 (hd vs) vs,
          low_y = min_list1 (hd tms) tms, high_y = max_list1 (hd tms) tms\<rparr>)"

text \<open>
  \<^verbatim>\<open>temporals_from_temporalseqarr(sequences, count, normalize)\<close>. The list
  \<open>sequences0\<close> is the array as the caller allocated it, which may hold more or fewer
  than \<open>count\<close> sequences. The first argument says whether the build is
  \<^verbatim>\<open>WITH_POSTGIS\<close>; \<open>do_normalize\<close> is the source's \<^verbatim>\<open>normalize\<close>.

  The first statement of the source reads \<^verbatim>\<open>sequences[0]->valuetypid\<close>, before
  \<open>count\<close> is tested: on an array that holds no sequence this read is outside of the
  array, and the outcome is \<open>OutOfBoundsRead\<close> whatever \<open>count\<close> is. The
  validation loop reads \<^verbatim>\<open>sequences[i]\<close> for \<open>i < count\<close>: it raises at the first
  bad pair, and once it has passed the last sequence that the array holds, the next read is
  outside of the array.
\<close>

definition temporals_from_temporalseqarr ::
  "bool \<Rightarrow> TemporalSeq list \<Rightarrow> int \<Rightarrow> bool \<Rightarrow> error + TemporalS"
where
  "temporals_from_temporalseqarr with_postgis sequences0 count do_normalize =
     (case sequences0 of
        [] \<Rightarrow> Inl OutOfBoundsRead
      | seq0 # rest \<Rightarrow>
          (let valuetypid = seq_valuetypid seq0
           in if count < 1 then Inl NoSequence
              else
                (let isgeo = (with_postgis \<and>
                              (valuetypid = type_oid T_GEOMETRY \<or>
                               valuetypid = type_oid T_GEOGRAPHY));
                     hasz = seq_hasz seq0;
                     srid = seq_srid seq0
                 in case validate_sequences with_postgis isgeo hasz srid seq0
                           (take (nat (count - 1)) rest) True of
                      Inl e \<Rightarrow> Inl e
                    | Inr tempcontinuous \<Rightarrow>
                        if count > int (length sequences0) then Inl OutOfBoundsRead
                        else
                          (let seqs = take (nat count) sequences0;
                               newsequences =
                                 (if do_normalize \<and> count > 1
                                  then temporalseqarr_normalize seqs else seqs)
                           in Inr \<lparr>sequences = newsequences,
                                   ts_valuetypid = valuetypid,
                                   ts_continuous = seq_continuous (hd newsequences),
                                   ts_tempcontinuous = tempcontinuous,
                                   ts_hasz = (isgeo \<and> hasz),
                                   bbox = (if temporal_bbox_size valuetypid \<noteq> 0
                                           then Some (temporals_make_bbox newsequences)
                                           else None)\<rparr>))))"

section \<open>Validity of sequences and of sequence sets\<close>

text \<open>
  A sequence has at least one instant, instants strictly increasing in time and a valid
  period whose bounds are the timestamps of its first and last instants.
\<close>

definition period_matches_instants :: "TemporalSeq \<Rightarrow> bool" where
  "period_matches_instants seq =
     (instants seq \<noteq> [] \<and>
      lower (period seq) = inst_t (hd (instants seq)) \<and>
      upper (period seq) = inst_t (last (instants seq)))"

definition temporalseq_valid :: "TemporalSeq \<Rightarrow> bool" where
  "temporalseq_valid seq =
     (period_matches_instants seq \<and> period_valid (period seq) \<and>
      sorted_wrt (<) (map inst_t (instants seq)))"

definition bbox_exact :: "TemporalS \<Rightarrow> bool" where
  "bbox_exact ts =
     (bbox ts = (if temporal_bbox_size (ts_valuetypid ts) \<noteq> 0
                 then Some (temporals_make_bbox (sequences ts)) else None))"

text \<open>
  A sequence set is valid when its sequences are valid, ordered and disjoint as the
  constructor demands, and its value type and bounding box are the ones the constructor
  computes from them.
\<close>

definition valid_temporals :: "TemporalS \<Rightarrow> bool" where
  "valid_temporals ts =
     (valid_sequences (sequences ts) \<and> list_all temporalseq_valid (sequences ts) \<and>
      ts_valuetypid ts = seq_valuetypid (hd (sequences ts)) \<and> bbox_exact ts)"

section \<open>Continuity in value\<close>

text \<open>
  The loop of \<^verbatim>\<open>temporals_continuous_value_internal\<close>: \<open>seq1\<close> is the sequence of the
  previous round, the head of the list is \<^verbatim>\<open>seq2 = temporals_seq_n(ts, i)\<close>. The
  comparison \<^verbatim>\<open>datum_ne\<close> of the value module is a parameter.
\<close>

fun continuous_value_loop ::
  "(Datum \<Rightarrow> Datum \<Rightarrow> Oid \<Rightarrow> bool) \<Rightarrow> Oid \<Rightarrow> TemporalSeq \<Rightarrow> TemporalSeq list \<Rightarrow> bool"
where
  "continuous_value_loop datum_ne valuetypid seq1 [] = True"
| "continuous_value_loop datum_ne valuetypid seq1 (seq2 # rest) =
     (let value1 = temporalinst_value (temporalseq_inst_n seq1 (seq_count seq1 - 1));
          value2 = temporalinst_value (temporalseq_inst_n seq1 0)
      in if datum_ne value1 value2 valuetypid then False
         else continuous_value_loop datum_ne valuetypid seq2 rest)"

definition temporals_continuous_value_internal ::
  "(Datum \<Rightarrow> Datum \<Rightarrow> Oid \<Rightarrow> bool) \<Rightarrow> TemporalS \<Rightarrow> bool"
where
  "temporals_continuous_value_internal datum_ne ts =
     (let seq1 = temporals_seq_n ts 0;
          valuetypid = seq_valuetypid seq1
      in continuous_value_loop datum_ne valuetypid seq1 (tl (sequences ts)))"

section \<open>Shift in time\<close>

text \<open>
  \<^verbatim>\<open>temporals_shift\<close> copies the sequence set and then overwrites the timestamp of every
  instant of every sequence with \<^verbatim>\<open>timestamptz_pl_interval(inst->t, interval)\<close>.
  PostgreSQL's addition of an interval to a timestamp is a parameter.
\<close>

definition temporals_shift ::
  "(TimestampTz \<Rightarrow> 'i \<Rightarrow> TimestampTz) \<Rightarrow> TemporalS \<Rightarrow> 'i \<Rightarrow> TemporalS"
where
  "temporals_shift timestamptz_pl_interval ts interval =
     ts\<lparr>sequences :=
          map (\<lambda>seq. seq\<lparr>instants :=
                 map (\<lambda>inst. inst\<lparr>inst_t := timestamptz_pl_interval (inst_t inst) interval\<rparr>)
                     (instants seq)\<rparr>)
              (sequences ts)\<rparr>"

section \<open>Example values\<close>

definition mk_inst :: "Datum \<Rightarrow> TimestampTz \<Rightarrow> TemporalInst" where
  "mk_inst v t = \<lparr>temporalinst_value = v, inst_t = t\<rparr>"

text \<open>An integer sequence over the given instants with the given bound flags.\<close>

definition mk_seq :: "TemporalInst list \<Rightarrow> bool \<Rightarrow> bool \<Rightarrow> TemporalSeq" where
  "mk_seq insts li ui =
     \<lparr>instants = insts,
      period = \<lparr>lower = inst_t (hd insts), upper = inst_t (last insts),
                lower_inc = li, upper_inc = ui\<rparr>,
      seq_valuetypid = INT4OID, seq_continuous = False, seq_hasz = False, seq_srid = 0\<rparr>"

definition mk_ts :: "TemporalSeq list \<Rightarrow> TemporalS" where
  "mk_ts seqs =
     \<lparr>sequences = seqs, ts_valuetypid = INT4OID, ts_continuous = False,
      ts_tempcontinuous = False, ts_hasz = False,
      bbox = Some (temporals_make_bbox seqs)\<rparr>"

text \<open>The sequence set with periods \<open>[0,10]\<close>, \<open>[20,30]\<close>, \<open>[40,50]\<close>.\<close>

definition example_ts :: TemporalS where
  "example_ts = mk_ts [mk_seq [mk_inst 1 0, mk_inst 2 10] True True,
                       mk_seq [mk_inst 3 20, mk_inst 3 30] True True,
                       mk_seq [mk_inst 1 40, mk_inst 5 50] True True]"

text \<open>
  Two sequences that touch at 10: the first excludes its upper bound, the second
  excludes its lower bound.
\<close>

definition open_ts :: TemporalS where
  "open_ts = mk_ts [mk_seq [mk_inst 1 0, mk_inst 2 10] True False,
                    mk_seq [mk_inst 3 10, mk_inst 3 30] False True]"

text \<open>
  Two constant sequences with different values: the value jumps from 1 to 5 between
  them.
\<close>

definition jump_ts :: TemporalS where
  "jump_ts = mk_ts [mk_seq [mk_inst 1 0, mk_inst 1 10] True True,
                    mk_seq [mk_inst 5 20, mk_inst 5 30] True True]"

definition shift_ts :: TemporalS where
  "shift_ts = mk_ts [mk_seq [mk_inst 1 0, mk_inst 2 10] True True]"

text \<open>The values of the last and of the first instant of a sequence.\<close>

definition last_value :: "TemporalSeq \<Rightarrow> Datum" where
  "last_value seq = temporalinst_value (temporalseq_inst_n seq (seq_count seq - 1))"

definition first_value :: "TemporalSeq \<Rightarrow> Datum" where
  "first_value seq = temporalinst_value (temporalseq_inst_n seq 0)"

text \<open>
  The conditions on an input array of the constructor, over the first \<open>count\<close>
  sequences: some consecutive pair is invalid; the value type of the first sequence is
  a PostGIS one; some sequence differs from the first in SRID or in dimensionality.
\<close>

definition is_geo :: "TemporalSeq list \<Rightarrow> bool" where
  "is_geo seqs = (seq_valuetypid (seqs ! 0) = type_oid T_GEOMETRY \<or>
                  seq_valuetypid (seqs ! 0) = type_oid T_GEOGRAPHY)"

definition some_invalid_pair :: "TemporalSeq list \<Rightarrow> int \<Rightarrow> bool" where
  "some_invalid_pair seqs count =
     (\<exists>i. 1 \<le> i \<and> i < count \<and> invalid_pair (seqs ! nat (i - 1)) (seqs ! nat i))"

definition some_geo_mismatch :: "TemporalSeq list \<Rightarrow> int \<Rightarrow> bool" where
  "some_geo_mismatch seqs count =
     (\<exists>i. 1 \<le> i \<and> i < count \<and>
          (seq_srid (seqs ! nat i) \<noteq> seq_srid (seqs ! 0) \<or>
           seq_hasz (seqs ! nat i) \<noteq> seq_hasz (seqs ! 0)))"

text \<open>Two geometry sequences that are disjoint in time and differ in SRID.\<close>

definition geo_seqs :: "TemporalSeq list" where
  "geo_seqs =
     [(mk_seq [mk_inst 1 0, mk_inst 2 10] True True)
        \<lparr>seq_valuetypid := type_oid T_GEOMETRY, seq_srid := 4326\<rparr>,
      (mk_seq [mk_inst 3 20, mk_inst 4 30] True True)
        \<lparr>seq_valuetypid := type_oid T_GEOMETRY, seq_srid := 3857\<rparr>]"

section \<open>Periods and synchronization\<close>

text \<open>
  Modelled from the spec: the period module (\<^verbatim>\<open>period_set\<close>,
  \<^verbatim>\<open>overlaps_period_period_internal\<close>, \<^verbatim>\<open>contains_period_period_internal\<close>,
  \<^verbatim>\<open>intersection_period_period_internal\<close>, \<^verbatim>\<open>period_eq_internal\<close>,
  \<^verbatim>\<open>period_cmp_internal\<close>, \<^verbatim>\<open>period_lt_internal\<close>) is not part of the sources at hand.
  Two periods overlap when they share a timestamp: \<open>[a,b)\<close> and \<open>[b,c]\<close> do not,
  \<open>[a,b]\<close> and \<open>[b,c]\<close> do. The order compares the lower bound, then the lower
  inclusivity, then the upper bound, then the upper inclusivity.
\<close>

definition period_set :: "TimestampTz \<Rightarrow> TimestampTz \<Rightarrow> bool \<Rightarrow> bool \<Rightarrow> Period" where
  "period_set lower1 upper1 lower_inc1 upper_inc1 =
     \<lparr>lower = lower1, upper = upper1, lower_inc = lower_inc1, upper_inc = upper_inc1\<rparr>"

definition overlaps_period_period_internal :: "Period \<Rightarrow> Period \<Rightarrow> bool" where
  "overlaps_period_period_internal p1 p2 =
     (let cmp1 = timestamp_cmp_internal (lower p1) (upper p2);
          cmp2 = timestamp_cmp_internal (lower p2) (upper p1)
      in (cmp1 < 0 \<or> (cmp1 = 0 \<and> lower_inc p1 \<and> upper_inc p2)) \<and>
         (cmp2 < 0 \<or> (cmp2 = 0 \<and> lower_inc p2 \<and> upper_inc p1)))"

definition contains_period_period_internal :: "Period \<Rightarrow> Period \<Rightarrow> bool" where
  "contains_period_period_internal p1 p2 =
     (let c1 = timestamp_cmp_internal (lower p1) (lower p2);
          c2 = timestamp_cmp_internal (upper p1) (upper p2)
      in (c1 < 0 \<or> (c1 = 0 \<and> (lower_inc p1 \<or> \<not> lower_inc p2))) \<and>
         (c2 > 0 \<or> (c2 = 0 \<and> (upper_inc p1 \<or> \<not> upper_inc p2))))"

definition period_eq_internal :: "Period \<Rightarrow> Period \<Rightarrow> bool" where
  "period_eq_internal p1 p2 =
     (timestamp_cmp_internal (lower p1) (lower p2) = 0 \<and>
      timestamp_cmp_internal (upper p1) (upper p2) = 0 \<and>
      lower_inc p1 = lower_inc p2 \<and> upper_inc p1 = upper_inc p2)"

definition period_cmp_internal :: "Period \<Rightarrow> Period \<Rightarrow> int" where
  "period_cmp_internal p1 p2 =
     (let cmp = timestamp_cmp_internal (lower p1) (lower p2)
      in if cmp \<noteq> 0 then cmp
         else if lower_inc p1 \<noteq> lower_inc p2 then (if lower_inc p1 then - 1 else 1)
         else
           (let cmp = timestamp_cmp_internal (upper p1) (upper p2)
            in if cmp \<noteq> 0 then cmp
               else if upper_inc p1 \<noteq> upper_inc p2 then (if upper_inc p1 then 1 else - 1)
               else 0))"

definition period_lt_internal :: "Period \<Rightarrow> Period \<Rightarrow> bool" where
  "period_lt_internal p1 p2 = (period_cmp_internal p1 p2 < 0)"

text \<open>
  \<^verbatim>\<open>temporals_timespan\<close>: from the lower bound of the first sequence to the upper bound of
  the last one.
\<close>

definition temporals_timespan :: "TemporalS \<Rightarrow> Period" where
  "temporals_timespan ts =
     (let start = temporals_seq_n ts 0;
          end1 = temporals_seq_n ts (ts_count ts - 1)
      in period_set (lower (period start)) (upper (period end1))
           (lower_inc (period start)) (upper_inc (period end1)))"

text \<open>
  The sequence-level \<^verbatim>\<open>synchronize_temporalseq_temporalseq(seq1, seq2, &syncseq1,
  &syncseq2, crossings)\<close> belongs to the sequence module, which is not part of the
  sources at hand; it is a parameter of the functions below. It returns the two
  synchronized sequences, or nothing when the sequences do not intersect in time.
\<close>

type_synonym seq_synchronizer =
  "TemporalSeq \<Rightarrow> TemporalSeq \<Rightarrow> bool \<Rightarrow> (TemporalSeq \<times> TemporalSeq) option"

text \<open>
  The merge walk of \<^verbatim>\<open>synchronize_temporals_temporals\<close> over the two cursors \<open>i\<close> and
  \<open>j\<close>. The two output arrays grow together, so the counter \<open>k\<close> of the source is
  their common length.
\<close>

function synchronize_loop ::
  "seq_synchronizer \<Rightarrow> bool \<Rightarrow> TemporalS \<Rightarrow> TemporalS \<Rightarrow> int \<Rightarrow> int \<Rightarrow>
   TemporalSeq list \<Rightarrow> TemporalSeq list \<Rightarrow> TemporalSeq list \<times> TemporalSeq list"
where
  "synchronize_loop synchronize_temporalseq_temporalseq crossings ts1 ts2 i j
     sequences1 sequences2 =
     (if i < ts_count ts1 \<and> j < ts_count ts2 then
        (let seq1 = temporals_seq_n ts1 i;
             seq2 = temporals_seq_n ts2 j;
             (sequences1, sequences2) =
               (case synchronize_temporalseq_temporalseq seq1 seq2 crossings of
                  Some (syncseq1, syncseq2) \<Rightarrow>
                    (sequences1 @ [syncseq1], sequences2 @ [syncseq2])
                | None \<Rightarrow> (sequences1, sequences2))
         in if period_eq_internal (period seq1) (period seq2)
            then synchronize_loop synchronize_temporalseq_temporalseq crossings ts1 ts2
                   (i + 1) (j + 1) sequences1 sequences2
            else if period_lt_internal (period seq1) (period seq2)
            then synchronize_loop synchronize_temporalseq_temporalseq crossings ts1 ts2
                   (i + 1) j sequences1 sequences2
            else synchronize_loop synchronize_temporalseq_temporalseq crossings ts1 ts2
                   i (j + 1) sequences1 sequences2)
      else (sequences1, sequences2))"
  by pat_completeness auto
termination
  by (relation "measure (\<lambda>(s, c, ts1, ts2, i, j, s1, s2).
        nat (ts_count ts1 - i) + nat (ts_count ts2 - j))") auto

declare synchronize_loop.simps [simp del]

definition synchronize_temporals_temporals ::
  "bool \<Rightarrow> seq_synchronizer \<Rightarrow> TemporalS \<Rightarrow> TemporalS \<Rightarrow> bool \<Rightarrow>
   error + (TemporalS \<times> TemporalS) option"
where
  "synchronize_temporals_temporals with_postgis synchronize_temporalseq_temporalseq
     ts1 ts2 crossings =
     (let p1 = temporals_timespan ts1;
          p2 = temporals_timespan ts2
      in if \<not> overlaps_period_period_internal p1 p2 then Inr None
         else
           (let (sequences1, sequences2) =
                  synchronize_loop synchronize_temporalseq_temporalseq crossings ts1 ts2
                    0 0 [] [];
                k = int (length sequences1)
            in if k = 0 then Inr None
               else
                 (case temporals_from_temporalseqarr with_postgis sequences1 k False of
                    Inl e \<Rightarrow> Inl e
                  | Inr sync1 \<Rightarrow>
                      (case temporals_from_temporalseqarr with_postgis sequences2 k False of
                         Inl e \<Rightarrow> Inl e
                       | Inr sync2 \<Rightarrow> Inr (Some (sync1, sync2))))))"

text \<open>
  Modelled from the spec: \<^verbatim>\<open>synchronize_temporalseq_temporalseq\<close> belongs to the sequence
  module, which is not part of the sources at hand. Two sequences whose periods overlap
  are both cut down to the intersection of their periods; the instants that
  interpolation adds at the new bounds and at crossings are left out, only the instants
  inside the intersection are kept.
\<close>

definition intersection_period_period_internal :: "Period \<Rightarrow> Period \<Rightarrow> Period option" where
  "intersection_period_period_internal p1 p2 =
     (if \<not> overlaps_period_period_internal p1 p2 then None
      else
        Some \<lparr>lower = max (lower p1) (lower p2),
              upper = min (upper p1) (upper p2),
              lower_inc = (if lower p1 = lower p2 then lower_inc p1 \<and> lower_inc p2
                           else if lower p1 > lower p2 then lower_inc p1 else lower_inc p2),
              upper_inc = (if upper p1 = upper p2 then upper_inc p1 \<and> upper_inc p2
                           else if upper p1 < upper p2 then upper_inc p1 else upper_inc p2)\<rparr>)"

text \<open>
  What is asked of the sequence-level synchronization on the sequences of \<open>ts1\<close> and
  \<open>ts2\<close>: it returns nothing when the periods of the two sequences do not overlap, and
  otherwise two sequences, both over the intersection of the two periods.
\<close>

definition synchronizes_on_intersection ::
  "seq_synchronizer \<Rightarrow> bool \<Rightarrow> TemporalS \<Rightarrow> TemporalS \<Rightarrow> bool" where
  "synchronizes_on_intersection synchronize_temporalseq_temporalseq crossings ts1 ts2 =
     list_all (\<lambda>seq1. list_all (\<lambda>seq2.
        case synchronize_temporalseq_temporalseq seq1 seq2 crossings of
          None \<Rightarrow> \<not> overlaps_period_period_internal (period seq1) (period seq2)
        | Some (syncseq1, syncseq2) \<Rightarrow>
            intersection_period_period_internal (period seq1) (period seq2) =
              Some (period syncseq1) \<and>
            period syncseq2 = period syncseq1) (sequences ts2)) (sequences ts1)"

definition restrict_to_period :: "TemporalSeq \<Rightarrow> Period \<Rightarrow> TemporalSeq" where
  "restrict_to_period seq p =
     seq\<lparr>instants := filter (\<lambda>inst. contains_period_timestamp_internal p (inst_t inst))
                         (instants seq),
         period := p\<rparr>"

definition sync_on_intersection :: seq_synchronizer where
  "sync_on_intersection seq1 seq2 crossings =
     (case intersection_period_period_internal (period seq1) (period seq2) of
        None \<Rightarrow> None
      | Some p \<Rightarrow> Some (restrict_to_period seq1 p, restrict_to_period seq2 p))"

definition sync_ts1 :: TemporalS where
  "sync_ts1 = mk_ts [mk_seq [mk_inst 1 0, mk_inst 2 10] True True,
                     mk_seq [mk_inst 3 20, mk_inst 3 30] True True]"

definition sync_ts2 :: TemporalS where
  "sync_ts2 = mk_ts [mk_seq [mk_inst 7 5, mk_inst 7 25] True True]"

definition late_ts1 :: TemporalS where
  "late_ts1 = mk_ts [mk_seq [mk_inst 1 20, mk_inst 2 30] True True]"

definition late_ts2 :: TemporalS where
  "late_ts2 = mk_ts [mk_seq [mk_inst 3 0, mk_inst 3 10] True True,
                     mk_seq [mk_inst 4 20, mk_inst 5 30] True True]"

definition wide_ts1 :: TemporalS where
  "wide_ts1 = mk_ts [mk_seq [mk_inst 1 0, mk_inst 2 100] True True]"

definition wide_ts2 :: TemporalS where
  "wide_ts2 = mk_ts [mk_seq [mk_inst 3 10, mk_inst 3 20] True True,
                     mk_seq [mk_inst 4 30, mk_inst 5 40] True True]"


section \<open>Serialization\<close>

text \<open>
  A \<^verbatim>\<open>StringInfo\<close> is a list of bytes, each an integer from 0 to 255.
  \<^verbatim>\<open>pq_sendint(buf, i, b)\<close> appends the \<open>b\<close> low bytes of \<open>i\<close> in network order;
  \<^verbatim>\<open>pq_getmsgint(buf, b)\<close> reads \<open>b\<close> bytes as an unsigned number and fails when fewer
  are left; the cast to \<^verbatim>\<open>int\<close> reads the number as two's complement.
\<close>

type_synonym byte = int

fun be_bytes :: "nat \<Rightarrow> int \<Rightarrow> byte list" where
  "be_bytes 0 u = []"
| "be_bytes (Suc n) u = be_bytes n (u div 256) @ [u mod 256]"

definition be_value :: "byte list \<Rightarrow> int" where
  "be_value bs = foldl (\<lambda>acc b. acc * 256 + b) 0 bs"

definition pq_sendint :: "int \<Rightarrow> nat \<Rightarrow> byte list" where
  "pq_sendint i b = be_bytes b (i mod 256 ^ b)"

definition pq_getmsgint :: "byte list \<Rightarrow> nat \<Rightarrow> (int \<times> byte list) option" where
  "pq_getmsgint buf b =
     (if length buf < b then None else Some (be_value (take b buf), drop b buf))"

definition signed_of :: "nat \<Rightarrow> int \<Rightarrow> int" where
  "signed_of b u = (if u \<ge> 256 ^ b div 2 then u - 256 ^ b else u)"

text \<open>
  The sequence-level \<^verbatim>\<open>temporalseq_write\<close> and \<^verbatim>\<open>temporalseq_read\<close> belong to the
  sequence module, which is not part of the sources at hand; they are parameters. The
  writer gives the bytes it appends, the reader takes the unread bytes and gives the
  sequence and the bytes left, or fails.
\<close>

type_synonym seq_writer = "TemporalSeq \<Rightarrow> byte list"
type_synonym seq_reader = "byte list \<Rightarrow> Oid \<Rightarrow> (TemporalSeq \<times> byte list) option"

fun write_sequences :: "seq_writer \<Rightarrow> TemporalSeq list \<Rightarrow> byte list \<Rightarrow> byte list" where
  "write_sequences temporalseq_write [] buf = buf"
| "write_sequences temporalseq_write (seq # rest) buf =
     write_sequences temporalseq_write rest (buf @ temporalseq_write seq)"

definition temporals_write :: "seq_writer \<Rightarrow> TemporalS \<Rightarrow> byte list \<Rightarrow> byte list" where
  "temporals_write temporalseq_write ts buf =
     write_sequences temporalseq_write (sequences ts) (buf @ pq_sendint (ts_count ts) 4)"

text \<open>
  \<^verbatim>\<open>temporals_read\<close> fails inside PostgreSQL when the message is too short or when the
  count is negative (the allocation of the array is refused), and otherwise as the
  constructor fails.
\<close>

datatype read_error =
    InsufficientData
  | InvalidAllocRequest
  | ConstructorError error

fun read_sequences ::
  "seq_reader \<Rightarrow> Oid \<Rightarrow> nat \<Rightarrow> byte list \<Rightarrow> (TemporalSeq list \<times> byte list) option"
where
  "read_sequences temporalseq_read valuetypid 0 buf = Some ([], buf)"
| "read_sequences temporalseq_read valuetypid (Suc n) buf =
     (case temporalseq_read buf valuetypid of
        None \<Rightarrow> None
      | Some (seq, buf) \<Rightarrow>
          (case read_sequences temporalseq_read valuetypid n buf of
             None \<Rightarrow> None
           | Some (seqs, buf) \<Rightarrow> Some (seq # seqs, buf)))"

definition temporals_read ::
  "bool \<Rightarrow> seq_reader \<Rightarrow> byte list \<Rightarrow> Oid \<Rightarrow> read_error + (TemporalS \<times> byte list)"
where
  "temporals_read with_postgis temporalseq_read buf valuetypid =
     (case pq_getmsgint buf 4 of
        None \<Rightarrow> Inl InsufficientData
      | Some (u, buf) \<Rightarrow>
          (let count = signed_of 4 u
           in if count < 0 then Inl InvalidAllocRequest
              else
                (case read_sequences temporalseq_read valuetypid (nat count) buf of
                   None \<Rightarrow> Inl InsufficientData
                 | Some (sequences0, buf) \<Rightarrow>
                     (case temporals_from_temporalseqarr with_postgis sequences0 count False of
                        Inl e \<Rightarrow> Inl (ConstructorError e)
                      | Inr result \<Rightarrow> Inr (result, buf)))))"

text \<open>
  A sequence set is the one the constructor builds, without normalization, from its
  own sequences.
\<close>

definition constructed :: "bool \<Rightarrow> TemporalS \<Rightarrow> bool" where
  "constructed with_postgis ts =
     (temporals_from_temporalseqarr with_postgis (sequences ts) (ts_count ts) False = Inr ts)"

text \<open>
  Modelled from the spec: \<^verbatim>\<open>temporalseq_write\<close> and \<^verbatim>\<open>temporalseq_read\<close> belong to the
  sequence module, which is not part of the sources at hand. A sequence is written as
  its instant count in 4 bytes, its two bound flags in one byte each and its instants
  as (value, timestamp) pairs of 8 bytes each; reading rebuilds the period from the
  first and the last instant and the flags.
\<close>

definition temporalinst_write :: "TemporalInst \<Rightarrow> byte list" where
  "temporalinst_write inst =
     pq_sendint (temporalinst_value inst) 8 @ pq_sendint (inst_t inst) 8"

definition temporalinst_read :: "byte list \<Rightarrow> (TemporalInst \<times> byte list) option" where
  "temporalinst_read buf =
     (case pq_getmsgint buf 8 of
        None \<Rightarrow> None
      | Some (v, buf) \<Rightarrow>
          (case pq_getmsgint buf 8 of
             None \<Rightarrow> None
           | Some (t, buf) \<Rightarrow>
               Some (\<lparr>temporalinst_value = signed_of 8 v, inst_t = signed_of 8 t\<rparr>, buf)))"

fun read_instants :: "nat \<Rightarrow> byte list \<Rightarrow> (TemporalInst list \<times> byte list) option" where
  "read_instants 0 buf = Some ([], buf)"
| "read_instants (Suc n) buf =
     (case temporalinst_read buf of
        None \<Rightarrow> None
      | Some (inst, buf) \<Rightarrow>
          (case read_instants n buf of
             None \<Rightarrow> None
           | Some (insts, buf) \<Rightarrow> Some (inst # insts, buf)))"

definition wire_temporalseq_write :: seq_writer where
  "wire_temporalseq_write seq =
     pq_sendint (seq_count seq) 4 @
     [if lower_inc (period seq) then 1 else 0, if upper_inc (period seq) then 1 else 0] @
     concat (map temporalinst_write (instants seq))"

definition wire_temporalseq_read :: seq_reader where
  "wire_temporalseq_read buf valuetypid =
     (case pq_getmsgint buf 4 of
        None \<Rightarrow> None
      | Some (u, buf) \<Rightarrow>
          (case buf of
             li # ui # buf \<Rightarrow>
               (if signed_of 4 u < 1 then None
                else
                  (case read_instants (nat (signed_of 4 u)) buf of
                     None \<Rightarrow> None
                   | Some (insts, buf) \<Rightarrow>
                       Some (\<lparr>instants = insts,
                              period = \<lparr>lower = inst_t (hd insts), upper = inst_t (last insts),
                                        lower_inc = (li \<noteq> 0), upper_inc = (ui \<noteq> 0)\<rparr>,
                              seq_valuetypid = valuetypid,
                              seq_continuous = (valuetypid = FLOAT8OID),
                              seq_hasz = False, seq_srid = 0\<rparr>, buf)))
           | _ \<Rightarrow> None))"

text \<open>The sequences that this wire form carries without loss.\<close>

definition int64 :: "int \<Rightarrow> bool" where
  "int64 i = (- 9223372036854775808 \<le> i \<and> i < 9223372036854775808)"

definition wire_ok :: "Oid \<Rightarrow> TemporalSeq \<Rightarrow> bool" where
  "wire_ok valuetypid seq =
     (period_matches_instants seq \<and> seq_count seq < 2147483648 \<and>
      list_all (\<lambda>inst. int64 (temporalinst_value inst) \<and> int64 (inst_t inst)) (instants seq) \<and>
      seq_valuetypid seq = valuetypid \<and> seq_continuous seq = (valuetypid = FLOAT8OID) \<and>
      \<not> seq_hasz seq \<and> seq_srid seq = 0)"

section \<open>Restriction to the minimum and to the maximum value\<close>

text \<open>
  The functions of the sequence module and of the value module that the minimum and
  maximum restrictions call; none of them is part of the sources at hand, so they are
  parameters, gathered in a record. \<^verbatim>\<open>temporalseq_at_value2\<close> gives the array of the
  fragments of a sequence at a value (its length is the count the source receives
  through a pointer).
\<close>

record seq_module =
  temporalseq_at_value2 :: "TemporalSeq \<Rightarrow> Datum \<Rightarrow> Oid \<Rightarrow> TemporalSeq list"
  temporalseq_at_min :: "TemporalSeq \<Rightarrow> error + TemporalS"
  temporalseq_at_max :: "TemporalSeq \<Rightarrow> error + TemporalS"
  temporalseq_min_value :: "TemporalSeq \<Rightarrow> Datum"
  temporalseq_max_value :: "TemporalSeq \<Rightarrow> Datum"
  datum_lt :: "Datum \<Rightarrow> Datum \<Rightarrow> Oid \<Rightarrow> bool"
  datum_gt :: "Datum \<Rightarrow> Datum \<Rightarrow> Oid \<Rightarrow> bool"

text \<open>
  \<^verbatim>\<open>temporals_min_value\<close> and \<^verbatim>\<open>temporals_max_value\<close>: from the bounding box for the
  number types, which always have one, and by a scan of the sequences otherwise.
\<close>

fun min_value_loop ::
  "'a seq_module_scheme \<Rightarrow> Oid \<Rightarrow> Datum \<Rightarrow> TemporalSeq list \<Rightarrow> Datum" where
  "min_value_loop m valuetypid result [] = result"
| "min_value_loop m valuetypid result (seq # rest) =
     (let value1 = temporalseq_min_value m seq
      in min_value_loop m valuetypid
           (if datum_lt m value1 result valuetypid then value1 else result) rest)"

definition temporals_min_value :: "'a seq_module_scheme \<Rightarrow> TemporalS \<Rightarrow> Datum" where
  "temporals_min_value m ts =
     (let valuetypid = ts_valuetypid ts
      in if valuetypid = INT4OID then low_x (the (bbox ts))
         else if valuetypid = FLOAT8OID then low_x (the (bbox ts))
         else min_value_loop m valuetypid (temporalseq_min_value m (temporals_seq_n ts 0))
                (tl (sequences ts)))"

fun max_value_loop ::
  "'a seq_module_scheme \<Rightarrow> Oid \<Rightarrow> Datum \<Rightarrow> TemporalSeq list \<Rightarrow> Datum" where
  "max_value_loop m valuetypid result [] = result"
| "max_value_loop m valuetypid result (seq # rest) =
     (let value1 = temporalseq_max_value m seq
      in max_value_loop m valuetypid
           (if datum_gt m value1 result valuetypid then value1 else result) rest)"

definition temporals_max_value :: "'a seq_module_scheme \<Rightarrow> TemporalS \<Rightarrow> Datum" where
  "temporals_max_value m ts =
     (let valuetypid = ts_valuetypid ts
      in if valuetypid = INT4OID then high_x (the (bbox ts))
         else if valuetypid = FLOAT8OID then high_x (the (bbox ts))
         else max_value_loop m valuetypid (temporalseq_max_value m (temporals_seq_n ts 0))
                (tl (sequences ts)))"

text \<open>The copy of a sequence with inclusive bounds that \<^verbatim>\<open>temporals_at_minmax\<close> makes.\<close>

definition inclusive_copy :: "TemporalSeq \<Rightarrow> TemporalSeq" where
  "inclusive_copy seq = seq\<lparr>period := (period seq)\<lparr>lower_inc := True, upper_inc := True\<rparr>\<rparr>"

text \<open>
  The second loop of \<^verbatim>\<open>temporals_at_minmax\<close>. The inner loop appends the fragments of
  one sequence to \<open>allseqs\<close> (\<open>k\<close> is the length of \<open>allseqs\<close>, \<open>j\<close> the index of the
  fragment) and, at the first fragment, clears the inclusive upper bound of the
  fragment before it when the two touch with both bounds inclusive.
\<close>

fun append_fragments :: "TemporalSeq list \<Rightarrow> TemporalSeq list \<Rightarrow> nat \<Rightarrow> TemporalSeq list" where
  "append_fragments allseqs [] j = allseqs"
| "append_fragments allseqs (frag # rest) j =
     (let allseqs = allseqs @ [frag];
          k = length allseqs;
          allseqs =
            (if k > 1 \<and> j = 0 \<and>
                timestamp_cmp_internal (upper (period (allseqs ! (k - 2))))
                  (lower (period (allseqs ! (k - 1)))) = 0 \<and>
                upper_inc (period (allseqs ! (k - 2))) \<and> lower_inc (period (allseqs ! (k - 1)))
             then allseqs[k - 2 :=
                    (allseqs ! (k - 2))\<lparr>period :=
                       (period (allseqs ! (k - 2)))\<lparr>upper_inc := False\<rparr>\<rparr>]
             else allseqs)
      in append_fragments allseqs rest (j + 1))"

fun collect_fragments :: "TemporalSeq list \<Rightarrow> TemporalSeq list list \<Rightarrow> TemporalSeq list" where
  "collect_fragments allseqs [] = allseqs"
| "collect_fragments allseqs (frags # rest) =
     collect_fragments (append_fragments allseqs frags 0) rest"

definition temporals_at_minmax ::
  "bool \<Rightarrow> 'a seq_module_scheme \<Rightarrow> TemporalS \<Rightarrow> Datum \<Rightarrow> error + TemporalS" where
  "temporals_at_minmax with_postgis m ts value1 =
     (let sequences1 =
            map (\<lambda>seq. let seq1 = inclusive_copy seq
                        in temporalseq_at_value2 m seq1 value1 (seq_valuetypid seq1))
                (sequences ts);
          totalseqs = sum_list (map (\<lambda>frags. int (length frags)) sequences1);
          allseqs = collect_fragments [] sequences1
      in temporals_from_temporalseqarr with_postgis allseqs totalseqs True)"

definition temporals_at_min ::
  "bool \<Rightarrow> 'a seq_module_scheme \<Rightarrow> TemporalS \<Rightarrow> error + TemporalS" where
  "temporals_at_min with_postgis m ts =
     (if ts_count ts = 1 then temporalseq_at_min m (temporals_seq_n ts 0)
      else temporals_at_minmax with_postgis m ts (temporals_min_value m ts))"

definition temporals_at_max ::
  "bool \<Rightarrow> 'a seq_module_scheme \<Rightarrow> TemporalS \<Rightarrow> error + TemporalS" where
  "temporals_at_max with_postgis m ts =
     (if ts_count ts = 1 then temporalseq_at_max m (temporals_seq_n ts 0)
      else temporals_at_minmax with_postgis m ts (temporals_max_value m ts))"

text \<open>
  What is asked of the fragments that \<^verbatim>\<open>temporalseq_at_value2\<close> gives for the inclusive
  copy of a sequence: they are valid periods inside the closed period of the sequence,
  ordered and disjoint as the constructor demands.
\<close>

definition within_closed :: "Period \<Rightarrow> Period \<Rightarrow> bool" where
  "within_closed p q = (lower q \<le> lower p \<and> lower p \<le> upper p \<and> upper p \<le> upper q)"

definition fragments_ok :: "'a seq_module_scheme \<Rightarrow> TemporalS \<Rightarrow> Datum \<Rightarrow> bool" where
  "fragments_ok m ts value1 =
     list_all
       (\<lambda>seq. let seq1 = inclusive_copy seq;
                   frags = temporalseq_at_value2 m seq1 value1 (seq_valuetypid seq1)
               in seqs_ordered frags \<and>
                  list_all (\<lambda>frag. within_closed (period frag) (period seq1)) frags)
       (sequences ts)"

text \<open>
  The fix-up in words: the fragment before the new one loses its inclusive upper bound
  when the two touch with both bounds inclusive.
\<close>

definition open_upper :: "TemporalSeq \<Rightarrow> TemporalSeq" where
  "open_upper seq = seq\<lparr>period := (period seq)\<lparr>upper_inc := False\<rparr>\<rparr>"

definition touch_inclusive :: "TemporalSeq \<Rightarrow> TemporalSeq \<Rightarrow> bool" where
  "touch_inclusive s1 s2 =
     (upper (period s1) = lower (period s2) \<and> upper_inc (period s1) \<and> lower_inc (period s2))"

text \<open>
  Modelled from the spec: the sequence module for sequences that are constant in value.
  The restriction of such a sequence to a value is the sequence itself or nothing, its
  minimum and maximum are the value of its first instant, and its restriction to its
  minimum or maximum is the sequence set of the sequence alone.
\<close>

definition constant_module :: seq_module where
  "constant_module =
     \<lparr>temporalseq_at_value2 =
        (\<lambda>seq value1 valuetypid.
           if list_all (\<lambda>inst. temporalinst_value inst = value1) (instants seq)
           then [seq] else []),
      temporalseq_at_min = (\<lambda>seq. temporals_from_temporalseqarr True [seq] 1 False),
      temporalseq_at_max = (\<lambda>seq. temporals_from_temporalseqarr True [seq] 1 False),
      temporalseq_min_value = (\<lambda>seq. temporalinst_value (hd (instants seq))),
      temporalseq_max_value = (\<lambda>seq. temporalinst_value (hd (instants seq))),
      datum_lt = (\<lambda>a b valuetypid. a < b),
      datum_gt = (\<lambda>a b valuetypid. a > b)\<rparr>"

text \<open>
  Three constant sequences: \<open>[1@0, 1@10)\<close> and \<open>[1@10, 1@20]\<close> touch at 10, and
  \<open>[3@30, 3@40]\<close> follows after a gap.
\<close>

definition touch_ts :: TemporalS where
  "touch_ts = mk_ts [mk_seq [mk_inst 1 0, mk_inst 1 10] True False,
                     mk_seq [mk_inst 1 10, mk_inst 1 20] True True,
                     mk_seq [mk_inst 3 30, mk_inst 3 40] True True]"

text \<open>
  What is asked of the sequence module for a sequence set of one sequence, where
  \<^verbatim>\<open>temporals_at_min\<close> and \<^verbatim>\<open>temporals_at_max\<close> hand the work over to it.
\<close>

definition singleton_ok :: "'a seq_module_scheme \<Rightarrow> TemporalS \<Rightarrow> bool" where
  "singleton_ok m ts =
     (let seq = temporals_seq_n ts 0
      in (case temporalseq_at_min m seq of
            Inl e \<Rightarrow> e \<noteq> InvalidSequence | Inr r \<Rightarrow> seqs_ordered (sequences r)) \<and>
         (case temporalseq_at_max m seq of
            Inl e \<Rightarrow> e \<noteq> InvalidSequence | Inr r \<Rightarrow> seqs_ordered (sequences r)))"


section \<open>Properties of the binary search\<close>

lemma not_contains_iff:
  "period_valid p \<Longrightarrow>
   \<not> contains_period_timestamp_internal p t \<longleftrightarrow> period_before p t \<or> period_after p t"
  by (auto simp: period_valid_def contains_period_timestamp_internal_def period_before_def
      period_after_def)

lemma period_before_points:
  "period_before p t \<Longrightarrow> contains_period_timestamp_internal p u \<Longrightarrow> u < t"
  by (auto simp: contains_period_timestamp_internal_def period_before_def)

lemma period_after_points:
  "period_after p t \<Longrightarrow> contains_period_timestamp_internal p u \<Longrightarrow> t < u"
  by (auto simp: contains_period_timestamp_internal_def period_after_def)

lemma invalid_pair_trans:
  "\<not> invalid_pair a b \<Longrightarrow> period_valid (period b) \<Longrightarrow> \<not> invalid_pair b c \<Longrightarrow>
   \<not> invalid_pair a c"
  by (auto simp: invalid_pair_def period_valid_def timestamp_cmp_internal_def split: if_splits)

lemma seqs_ordered_head:
  "list_all (\<lambda>s. period_valid (period s)) (a # xs) \<Longrightarrow> seqs_ordered (a # xs) \<Longrightarrow>
   \<forall>c \<in> set xs. \<not> invalid_pair a c"
proof (induction xs arbitrary: a)
  case Nil
  then show ?case by simp
next
  case (Cons b rest)
  have ab: "\<not> invalid_pair a b" using Cons.prems(2) by simp
  have pb: "period_valid (period b)" using Cons.prems(1) by simp
  have "\<forall>c \<in> set rest. \<not> invalid_pair b c"
    using Cons.IH [of b] Cons.prems by simp
  then show ?case using ab pb invalid_pair_trans by auto
qed

lemma seqs_ordered_tl: "seqs_ordered (a # xs) \<Longrightarrow> seqs_ordered xs"
  by (cases xs) auto

lemma valid_sorted_wrt:
  "list_all (\<lambda>s. period_valid (period s)) xs \<Longrightarrow> seqs_ordered xs \<Longrightarrow>
   sorted_wrt (\<lambda>a b. \<not> invalid_pair a b) xs"
proof (induction xs)
  case Nil
  then show ?case by simp
next
  case (Cons a xs)
  then show ?case using seqs_ordered_head [of a xs] seqs_ordered_tl [of a xs] by simp
qed

lemma nth_pair_ok:
  assumes "valid_sequences xs" "i < j" "j < length xs"
  shows "\<not> invalid_pair (xs ! i) (xs ! j)"
  using assms valid_sorted_wrt [of xs]
  by (simp add: valid_sequences_def sorted_wrt_iff_nth_less)

lemma nth_period_valid:
  "valid_sequences xs \<Longrightarrow> i < length xs \<Longrightarrow> period_valid (period (xs ! i))"
  by (simp add: valid_sequences_def list_all_length)

lemma before_mono:
  assumes "valid_sequences xs" "i < j" "j < length xs" "period_before (period (xs ! j)) t"
  shows "period_before (period (xs ! i)) t"
  using nth_pair_ok [OF assms(1-3)] nth_period_valid [OF assms(1,3)] assms(4)
  by (auto simp: invalid_pair_def period_valid_def period_before_def timestamp_cmp_internal_def
      split: if_splits)

lemma after_mono:
  assumes "valid_sequences xs" "i < j" "j < length xs" "period_after (period (xs ! i)) t"
  shows "period_after (period (xs ! j)) t"
proof -
  have "i < length xs" using assms by simp
  from nth_pair_ok [OF assms(1-3)] nth_period_valid [OF assms(1) this] assms(4)
  show ?thesis
    by (auto simp: invalid_pair_def period_valid_def period_after_def timestamp_cmp_internal_def
      split: if_splits)
qed

lemma contains_unique:
  assumes v: "valid_sequences xs" and i: "i < length xs" and j: "j < length xs"
    and ci: "contains_period_timestamp_internal (period (xs ! i)) t"
    and cj: "contains_period_timestamp_internal (period (xs ! j)) t"
  shows "i = j"
proof -
  have ne: "\<not> a < b" if "a < length xs" "b < length xs"
     "contains_period_timestamp_internal (period (xs ! a)) t"
     "contains_period_timestamp_internal (period (xs ! b)) t" for a b
  proof
    assume "a < b"
    from nth_pair_ok [OF v this that(2)] that(3,4) show False
      by (auto simp: invalid_pair_def contains_period_timestamp_internal_def
          timestamp_cmp_internal_def split: if_splits)
  qed
  from ne [OF i j ci cj] ne [OF j i cj ci] show ?thesis by simp
qed

text \<open>
  The invariant of the loop: the sequences below \<open>first\<close> lie before \<open>t\<close>, those above
  \<open>last1\<close> lie after \<open>t\<close>, and once the range is empty the sequence looked at last is the
  one at \<open>middle\<close>, on the side of \<open>t\<close> that the last branch decided.
\<close>

lemma find_timestamp_loop_post:
  "valid_sequences (sequences ts) \<Longrightarrow> 0 \<le> first \<Longrightarrow> last1 < ts_count ts \<Longrightarrow>
   first \<le> last1 + 1 \<Longrightarrow>
   (\<forall>i. 0 \<le> i \<and> i < first \<longrightarrow> period_before (period (temporals_seq_n ts i)) t) \<Longrightarrow>
   (\<forall>i. last1 < i \<and> i < ts_count ts \<longrightarrow> period_after (period (temporals_seq_n ts i)) t) \<Longrightarrow>
   (first \<le> last1 \<or> (\<exists>s. seq = Some s \<and> period_valid (period s) \<and>
       ((middle = first \<and> period_after (period s) t) \<or>
        (middle = first - 1 \<and> period_before (period s) t)))) \<Longrightarrow>
   \<exists>found pos. find_timestamp_loop ts t first last1 middle seq = Some (found, pos) \<and>
      find_post ts t found pos"
proof (induction ts t first last1 middle seq rule: find_timestamp_loop.induct)
  case (1 ts t first last1 middle seq)
  note v = "1.prems"(1)
  show ?case
  proof (cases "first \<le> last1")
    case False
    then have fl: "first = last1 + 1" using "1.prems" by simp
    from False "1.prems"(7) obtain s where s: "seq = Some s" "period_valid (period s)"
      "(middle = first \<and> period_after (period s) t) \<or>
       (middle = first - 1 \<and> period_before (period s) t)"
      by auto
    have r: "find_timestamp_loop ts t first last1 middle seq = Some (False, first)"
      using s False
      by (subst find_timestamp_loop.simps)
         (auto simp: timestamp_cmp_internal_def period_after_def period_before_def
            period_valid_def)
    have "find_post ts t False first"
      using "1.prems" fl by (auto simp: find_post_def)
    with r show ?thesis by blast
  next
    case True
    let ?m = "(first + last1) div 2"
    let ?sq = "temporals_seq_n ts ?m"
    have mb: "first \<le> ?m" "?m \<le> last1" using True by auto
    have mr: "0 \<le> ?m" "?m < ts_count ts" using mb "1.prems" by auto
    have mn: "nat ?m < length (sequences ts)" using mr by (simp add: ts_count_def)
    have pv: "period_valid (period ?sq)"
      using nth_period_valid [OF v mn] by (simp add: temporals_seq_n_def)
    show ?thesis
    proof (cases "contains_period_timestamp_internal (period ?sq) t")
      case c: True
      have "find_timestamp_loop ts t first last1 middle seq = Some (True, ?m)"
        using True c by (subst find_timestamp_loop.simps) (simp add: Let_def)
      moreover have "find_post ts t True ?m" using c mr by (simp add: find_post_def)
      ultimately show ?thesis by blast
    next
      case c: False
      then have ba: "period_before (period ?sq) t \<or> period_after (period ?sq) t"
        using not_contains_iff [OF pv] by simp
      show ?thesis
      proof (cases "timestamp_cmp_internal t (lower (period ?sq)) \<le> 0")
        case le: True
        then have tl: "t \<le> lower (period ?sq)"
          by (simp add: timestamp_cmp_internal_def split: if_splits)
        have aft: "period_after (period ?sq) t"
          using ba tl pv c
          by (auto simp: period_before_def period_after_def period_valid_def
              contains_period_timestamp_internal_def)
        have step: "find_timestamp_loop ts t first last1 middle seq =
                    find_timestamp_loop ts t first (?m - 1) ?m (Some ?sq)"
          using True c le by (subst find_timestamp_loop.simps) (simp add: Let_def)
        have inv: "\<forall>i. ?m - 1 < i \<and> i < ts_count ts \<longrightarrow>
                     period_after (period (temporals_seq_n ts i)) t"
        proof (intro allI impI)
          fix i assume i: "?m - 1 < i \<and> i < ts_count ts"
          show "period_after (period (temporals_seq_n ts i)) t"
          proof (cases "i = ?m")
            case True then show ?thesis using aft by simp
          next
            case False
            then have "nat ?m < nat i" "nat i < length (sequences ts)"
              using i mr by (auto simp: ts_count_def)
            from after_mono [OF v this] aft show ?thesis
              by (simp add: temporals_seq_n_def)
          qed
        qed
        have fin: "first \<le> ?m - 1 \<or> (\<exists>s. Some ?sq = Some s \<and> period_valid (period s) \<and>
            ((?m = first \<and> period_after (period s) t) \<or>
             (?m = first - 1 \<and> period_before (period s) t)))"
          using pv aft mb by auto
        have "\<exists>found pos.
                find_timestamp_loop ts t first (?m - 1) ?m (Some ?sq) = Some (found, pos) \<and>
                find_post ts t found pos"
          using mb mr
          by (intro "1.IH"(1) [OF True refl refl c le v "1.prems"(2) _ _ "1.prems"(5) inv fin])
             auto
        with step show ?thesis by simp
      next
        case gt: False
        then have tl: "lower (period ?sq) < t"
          by (simp add: timestamp_cmp_internal_def split: if_splits)
        have bef: "period_before (period ?sq) t"
          using ba tl by (auto simp: period_before_def period_after_def)
        have step: "find_timestamp_loop ts t first last1 middle seq =
                    find_timestamp_loop ts t (?m + 1) last1 ?m (Some ?sq)"
          using True c gt by (subst find_timestamp_loop.simps) (simp add: Let_def)
        have inv: "\<forall>i. 0 \<le> i \<and> i < ?m + 1 \<longrightarrow>
                     period_before (period (temporals_seq_n ts i)) t"
        proof (intro allI impI)
          fix i assume i: "0 \<le> i \<and> i < ?m + 1"
          show "period_before (period (temporals_seq_n ts i)) t"
          proof (cases "i = ?m")
            case True then show ?thesis using bef by simp
          next
            case False
            then have "nat i < nat ?m" using i mr by auto
            from before_mono [OF v this mn] bef show ?thesis
              by (simp add: temporals_seq_n_def)
          qed
        qed
        have fin: "?m + 1 \<le> last1 \<or> (\<exists>s. Some ?sq = Some s \<and> period_valid (period s) \<and>
            ((?m = ?m + 1 \<and> period_after (period s) t) \<or>
             (?m = ?m + 1 - 1 \<and> period_before (period s) t)))"
          using pv bef by auto
        have "\<exists>found pos.
                find_timestamp_loop ts t (?m + 1) last1 ?m (Some ?sq) = Some (found, pos) \<and>
                find_post ts t found pos"
          using mb mr
          by (intro "1.IH"(2) [OF True refl refl c gt v _ "1.prems"(3) _ inv "1.prems"(6) fin])
             auto
        with step show ?thesis by simp
      qed
    qed
  qed
qed

lemma temporals_find_timestamp_post:
  assumes "valid_sequences (sequences ts)"
  shows "\<exists>found pos. temporals_find_timestamp ts t = Some (found, pos) \<and>
           find_post ts t found pos"
  unfolding temporals_find_timestamp_def
  using assms
  by (intro find_timestamp_loop_post) (auto simp: ts_count_def valid_sequences_def)

lemma find_post_found_iff:
  assumes v: "valid_sequences (sequences ts)" and p: "find_post ts t found pos"
  shows "found \<longleftrightarrow>
    (\<exists>i. 0 \<le> i \<and> i < ts_count ts \<and>
         contains_period_timestamp_internal (period (temporals_seq_n ts i)) t)"
proof
  assume found
  with p show "\<exists>i. 0 \<le> i \<and> i < ts_count ts \<and>
         contains_period_timestamp_internal (period (temporals_seq_n ts i)) t"
    by (auto simp: find_post_def)
next
  assume "\<exists>i. 0 \<le> i \<and> i < ts_count ts \<and>
         contains_period_timestamp_internal (period (temporals_seq_n ts i)) t"
  then obtain i where i: "0 \<le> i" "i < ts_count ts"
    "contains_period_timestamp_internal (period (temporals_seq_n ts i)) t" by blast
  show found
  proof (rule ccontr)
    assume nf: "\<not> found"
    have "period_before (period (temporals_seq_n ts i)) t \<or>
          period_after (period (temporals_seq_n ts i)) t"
      using p nf i by (cases "i < pos") (auto simp: find_post_def)
    then show False
      using i(3) period_before_points period_after_points by blast
  qed
qed

lemma find_post_unique:
  assumes v: "valid_sequences (sequences ts)" and p: "find_post ts t True pos"
    and i: "0 \<le> i" "i < ts_count ts"
       "contains_period_timestamp_internal (period (temporals_seq_n ts i)) t"
  shows "i = pos"
proof -
  have "nat i = nat pos"
    using contains_unique [OF v, of "nat i" "nat pos" t] p i
    by (auto simp: find_post_def ts_count_def temporals_seq_n_def)
  then show ?thesis using i p by (auto simp: find_post_def)
qed
lemma example_ts_valid_sequences: "valid_sequences (sequences example_ts)"
  by code_simp

text \<open>
  Claim C1. For a sequence set whose periods are valid, ordered and disjoint,
  \<^verbatim>\<open>temporals_find_timestamp\<close> returns. It reports \<open>found\<close> exactly when some sequence's
  period contains \<open>t\<close> (inclusive of that period's own bound flags), and then \<open>pos\<close> is
  the one index whose period contains \<open>t\<close>. Otherwise \<open>pos\<close> is the insertion index:
  every sequence before it ends before \<open>t\<close> and every sequence from it on starts after
  \<open>t\<close>, in the sense that every timestamp of the former periods is strictly before \<open>t\<close>
  and every timestamp of the latter strictly after it; a bound that equals \<open>t\<close> is then
  an exclusive one. On the sequences \<open>[0,10]\<close>, \<open>[20,30]\<close>, \<open>[40,50]\<close> the search gives
  \<open>(false, 1)\<close> for 15, \<open>(true, 0)\<close> for 5 and \<open>(false, 3)\<close> for 60.
\<close>
theorem temporals_find_timestamp_correct:
  "(valid_sequences (sequences ts) \<longrightarrow>
     (\<exists>found pos. temporals_find_timestamp ts t = Some (found, pos) \<and>
        (found \<longleftrightarrow>
           (\<exists>i. 0 \<le> i \<and> i < ts_count ts \<and>
                contains_period_timestamp_internal (period (temporals_seq_n ts i)) t)) \<and>
        (found \<longrightarrow>
           0 \<le> pos \<and> pos < ts_count ts \<and>
           contains_period_timestamp_internal (period (temporals_seq_n ts pos)) t \<and>
           (\<forall>i. 0 \<le> i \<and> i < ts_count ts \<and>
                contains_period_timestamp_internal (period (temporals_seq_n ts i)) t \<longrightarrow>
                i = pos)) \<and>
        (\<not> found \<longrightarrow>
           0 \<le> pos \<and> pos \<le> ts_count ts \<and>
           (\<forall>i. 0 \<le> i \<and> i < pos \<longrightarrow>
                period_before (period (temporals_seq_n ts i)) t \<and>
                (\<forall>u. contains_period_timestamp_internal (period (temporals_seq_n ts i)) u \<longrightarrow>
                     u < t)) \<and>
           (\<forall>i. pos \<le> i \<and> i < ts_count ts \<longrightarrow>
                period_after (period (temporals_seq_n ts i)) t \<and>
                (\<forall>u. contains_period_timestamp_internal (period (temporals_seq_n ts i)) u \<longrightarrow>
                     t < u))))) \<and>
   temporals_find_timestamp example_ts 15 = Some (False, 1) \<and>
   temporals_find_timestamp example_ts 5 = Some (True, 0) \<and>
   temporals_find_timestamp example_ts 60 = Some (False, 3)"
proof (intro conjI impI)
  assume v: "valid_sequences (sequences ts)"
  from temporals_find_timestamp_post [OF v, of t] obtain found pos where
    r: "temporals_find_timestamp ts t = Some (found, pos)" and p: "find_post ts t found pos"
    by blast
  have iff: "found \<longleftrightarrow>
           (\<exists>i. 0 \<le> i \<and> i < ts_count ts \<and>
                contains_period_timestamp_internal (period (temporals_seq_n ts i)) t)"
    by (rule find_post_found_iff [OF v p])
  have yes: "found \<longrightarrow>
           0 \<le> pos \<and> pos < ts_count ts \<and>
           contains_period_timestamp_internal (period (temporals_seq_n ts pos)) t \<and>
           (\<forall>i. 0 \<le> i \<and> i < ts_count ts \<and>
                contains_period_timestamp_internal (period (temporals_seq_n ts i)) t \<longrightarrow>
                i = pos)"
  proof
    assume f: found
    then have p': "find_post ts t True pos" using p by simp
    then show "0 \<le> pos \<and> pos < ts_count ts \<and>
           contains_period_timestamp_internal (period (temporals_seq_n ts pos)) t \<and>
           (\<forall>i. 0 \<le> i \<and> i < ts_count ts \<and>
                contains_period_timestamp_internal (period (temporals_seq_n ts i)) t \<longrightarrow>
                i = pos)"
      using find_post_unique [OF v p'] by (auto simp: find_post_def)
  qed
  have no: "\<not> found \<longrightarrow>
           0 \<le> pos \<and> pos \<le> ts_count ts \<and>
           (\<forall>i. 0 \<le> i \<and> i < pos \<longrightarrow>
                period_before (period (temporals_seq_n ts i)) t \<and>
                (\<forall>u. contains_period_timestamp_internal (period (temporals_seq_n ts i)) u \<longrightarrow>
                     u < t)) \<and>
           (\<forall>i. pos \<le> i \<and> i < ts_count ts \<longrightarrow>
                period_after (period (temporals_seq_n ts i)) t \<and>
                (\<forall>u. contains_period_timestamp_internal (period (temporals_seq_n ts i)) u \<longrightarrow>
                     t < u))"
    using p unfolding find_post_def
    by auto (blast intro: period_before_points period_after_points)+
  from r iff yes no
  show "\<exists>found pos. temporals_find_timestamp ts t = Some (found, pos) \<and>
        (found \<longleftrightarrow>
           (\<exists>i. 0 \<le> i \<and> i < ts_count ts \<and>
                contains_period_timestamp_internal (period (temporals_seq_n ts i)) t)) \<and>
        (found \<longrightarrow>
           0 \<le> pos \<and> pos < ts_count ts \<and>
           contains_period_timestamp_internal (period (temporals_seq_n ts pos)) t \<and>
           (\<forall>i. 0 \<le> i \<and> i < ts_count ts \<and>
                contains_period_timestamp_internal (period (temporals_seq_n ts i)) t \<longrightarrow>
                i = pos)) \<and>
        (\<not> found \<longrightarrow>
           0 \<le> pos \<and> pos \<le> ts_count ts \<and>
           (\<forall>i. 0 \<le> i \<and> i < pos \<longrightarrow>
                period_before (period (temporals_seq_n ts i)) t \<and>
                (\<forall>u. contains_period_timestamp_internal (period (temporals_seq_n ts i)) u \<longrightarrow>
                     u < t)) \<and>
           (\<forall>i. pos \<le> i \<and> i < ts_count ts \<longrightarrow>
                period_after (period (temporals_seq_n ts i)) t \<and>
                (\<forall>u. contains_period_timestamp_internal (period (temporals_seq_n ts i)) u \<longrightarrow>
                     t < u)))"
    by blast
next
  show "temporals_find_timestamp example_ts 15 = Some (False, 1)" by code_simp
next
  show "temporals_find_timestamp example_ts 5 = Some (True, 0)" by code_simp
next
  show "temporals_find_timestamp example_ts 60 = Some (False, 3)" by code_simp
qed

theorem temporals_find_timestamp_correct_witness:
  "valid_sequences (sequences open_ts) \<and>
   temporals_find_timestamp open_ts 10 = Some (False, 1) \<and>
   period_before (period (temporals_seq_n open_ts 0)) 10 \<and>
   period_after (period (temporals_seq_n open_ts 1)) 10"
proof -
  have v: "valid_sequences (sequences open_ts)" by code_simp
  have r: "temporals_find_timestamp open_ts 10 = Some (False, 1)" by code_simp
  have c: "ts_count open_ts = 2" by code_simp
  from temporals_find_timestamp_correct [of open_ts 10] v r c
  have "(\<forall>i. 0 \<le> i \<and> i < 1 \<longrightarrow> period_before (period (temporals_seq_n open_ts i)) 10) \<and>
        (\<forall>i. 1 \<le> i \<and> i < 2 \<longrightarrow> period_after (period (temporals_seq_n open_ts i)) 10)"
    by auto
  then have "period_before (period (temporals_seq_n open_ts 0)) 10 \<and>
             period_after (period (temporals_seq_n open_ts 1)) 10" by simp
  with v r show ?thesis by simp
qed

section \<open>Intersection with a timestamp\<close>

text \<open>
  Claim C4. \<^verbatim>\<open>temporals_intersects_timestamp\<close> should answer true exactly when the
  search finds a sequence whose period contains the timestamp. The source returns
  false when the search succeeds and true when it fails: on the sequences \<open>[0,10]\<close>,
  \<open>[20,30]\<close>, \<open>[40,50]\<close> the timestamp 5 lies in the first period and the answer is
  false, the timestamp 15 lies in a gap and the answer is true.
\<close>
theorem temporals_intersects_timestamp_inverted:
  "temporals_find_timestamp example_ts 5 = Some (True, 0) \<and>
   contains_period_timestamp_internal (period (temporals_seq_n example_ts 0)) 5 \<and>
   temporals_intersects_timestamp example_ts 5 = Some False \<and>
   temporals_find_timestamp example_ts 15 = Some (False, 1) \<and>
   temporals_intersects_timestamp example_ts 15 = Some True"
  by code_simp

section \<open>Continuity in value\<close>

lemma continuous_value_loop_iff:
  "continuous_value_loop datum_ne valuetypid seq1 rest \<longleftrightarrow>
   (\<forall>k < length rest. \<not> datum_ne (last_value ((seq1 # rest) ! k))
                          (first_value ((seq1 # rest) ! k)) valuetypid)"
proof (induction rest arbitrary: seq1)
  case Nil
  then show ?case by simp
next
  case (Cons seq2 rest)
  show ?case
    by (simp add: Cons.IH Let_def last_value_def first_value_def All_less_Suc2)
qed

text \<open>
  Claim C9. For a valid sequence set with at least two sequences,
  \<^verbatim>\<open>temporals_continuous_value_internal\<close> returns true exactly when, for every index
  \<open>i\<close> from 0 to \<open>count - 2\<close>, the value of the last instant of sequence \<open>i\<close> is not
  different (by \<^verbatim>\<open>datum_ne\<close>) from the value of the first instant of the same sequence
  \<open>i\<close>: the comparison never looks at sequence \<open>i + 1\<close>.
\<close>
theorem temporals_continuous_value_internal_compares_with_self:
  assumes "valid_temporals ts" and "2 \<le> ts_count ts"
  shows "temporals_continuous_value_internal datum_ne ts \<longleftrightarrow>
    (\<forall>i. 0 \<le> i \<and> i \<le> ts_count ts - 2 \<longrightarrow>
       \<not> datum_ne (last_value (temporals_seq_n ts i)) (first_value (temporals_seq_n ts i))
           (seq_valuetypid (temporals_seq_n ts 0)))"
proof -
  obtain seq1 rest where sq: "sequences ts = seq1 # rest"
    using assms(2) by (cases "sequences ts") (auto simp: ts_count_def)
  have "temporals_continuous_value_internal datum_ne ts \<longleftrightarrow>
        (\<forall>k < length rest. \<not> datum_ne (last_value (sequences ts ! k))
                          (first_value (sequences ts ! k)) (seq_valuetypid seq1))"
    by (simp add: temporals_continuous_value_internal_def temporals_seq_n_def sq Let_def
        continuous_value_loop_iff)
  also have "\<dots> \<longleftrightarrow> (\<forall>i. 0 \<le> i \<and> i \<le> ts_count ts - 2 \<longrightarrow>
       \<not> datum_ne (last_value (temporals_seq_n ts i)) (first_value (temporals_seq_n ts i))
           (seq_valuetypid (temporals_seq_n ts 0)))"
  proof
    assume h: "\<forall>k < length rest. \<not> datum_ne (last_value (sequences ts ! k))
                          (first_value (sequences ts ! k)) (seq_valuetypid seq1)"
    show "\<forall>i. 0 \<le> i \<and> i \<le> ts_count ts - 2 \<longrightarrow>
       \<not> datum_ne (last_value (temporals_seq_n ts i)) (first_value (temporals_seq_n ts i))
           (seq_valuetypid (temporals_seq_n ts 0))"
    proof (intro allI impI)
      fix i assume "0 \<le> i \<and> i \<le> ts_count ts - 2"
      then have "nat i < length rest" by (auto simp: ts_count_def sq)
      with h show "\<not> datum_ne (last_value (temporals_seq_n ts i))
           (first_value (temporals_seq_n ts i)) (seq_valuetypid (temporals_seq_n ts 0))"
        by (simp add: temporals_seq_n_def sq)
    qed
  next
    assume h: "\<forall>i. 0 \<le> i \<and> i \<le> ts_count ts - 2 \<longrightarrow>
       \<not> datum_ne (last_value (temporals_seq_n ts i)) (first_value (temporals_seq_n ts i))
           (seq_valuetypid (temporals_seq_n ts 0))"
    show "\<forall>k < length rest. \<not> datum_ne (last_value (sequences ts ! k))
                          (first_value (sequences ts ! k)) (seq_valuetypid seq1)"
    proof (intro allI impI)
      fix k assume "k < length rest"
      then have "0 \<le> int k \<and> int k \<le> ts_count ts - 2" by (auto simp: ts_count_def sq)
      with h have "\<not> datum_ne (last_value (temporals_seq_n ts (int k)))
           (first_value (temporals_seq_n ts (int k))) (seq_valuetypid (temporals_seq_n ts 0))"
        by blast
      then show "\<not> datum_ne (last_value (sequences ts ! k))
                          (first_value (sequences ts ! k)) (seq_valuetypid seq1)"
        by (simp add: temporals_seq_n_def sq)
    qed
  qed
  finally show ?thesis .
qed

theorem temporals_continuous_value_internal_compares_with_self_witness:
  "valid_temporals jump_ts \<and> 2 \<le> ts_count jump_ts \<and>
   last_value (temporals_seq_n jump_ts 0) \<noteq> first_value (temporals_seq_n jump_ts 1) \<and>
   temporals_continuous_value_internal (\<lambda>a b valuetypid. a \<noteq> b) jump_ts"
proof -
  have v: "valid_temporals jump_ts" by code_simp
  have c: "2 \<le> ts_count jump_ts" by code_simp
  have c2: "ts_count jump_ts - 2 = 0" by code_simp
  have j: "last_value (temporals_seq_n jump_ts 0) \<noteq> first_value (temporals_seq_n jump_ts 1)"
    by code_simp
  have s: "last_value (temporals_seq_n jump_ts 0) = first_value (temporals_seq_n jump_ts 0)"
    by code_simp
  have "temporals_continuous_value_internal (\<lambda>a b valuetypid. a \<noteq> b) jump_ts"
    using temporals_continuous_value_internal_compares_with_self
            [OF v c, of "\<lambda>a b valuetypid. a \<noteq> b"] s c2
    by auto
  with v c j show ?thesis by simp
qed

section \<open>Shift in time\<close>

text \<open>
  The shift rewrites the timestamps of the instants only: the periods of the sequences
  and the cached bounding box are the ones of the argument.
\<close>

lemma temporals_shift_keeps_periods:
  "map period (sequences (temporals_shift timestamptz_pl_interval ts interval)) =
     map period (sequences ts) \<and>
   bbox (temporals_shift timestamptz_pl_interval ts interval) = bbox ts"
  by (simp add: temporals_shift_def comp_def)

text \<open>
  Claim C10. The result of \<^verbatim>\<open>temporals_shift\<close> should satisfy the invariants of the
  data model. It does not: shifting the valid sequence set \<open>{[1@0, 2@10]}\<close> by 5 moves
  the instants to 5 and 15 while the period of the sequence stays \<open>[0,10]\<close> and the
  bounding box keeps the time extent from 0 to 10.
\<close>
theorem temporals_shift_breaks_invariants:
  "valid_temporals shift_ts \<and>
   map inst_t (instants (temporals_seq_n (temporals_shift (+) shift_ts 5) 0)) = [5, 15] \<and>
   period (temporals_seq_n (temporals_shift (+) shift_ts 5) 0) =
     \<lparr>lower = 0, upper = 10, lower_inc = True, upper_inc = True\<rparr> \<and>
   \<not> period_matches_instants (temporals_seq_n (temporals_shift (+) shift_ts 5) 0) \<and>
   bbox (temporals_shift (+) shift_ts 5) =
     Some \<lparr>low_x = 1, high_x = 2, low_y = 0, high_y = 10\<rparr> \<and>
   \<not> bbox_exact (temporals_shift (+) shift_ts 5)"
  by code_simp

section \<open>Errors of the constructor\<close>

lemma seqs_ordered_nth:
  "seqs_ordered xs \<longleftrightarrow> (\<forall>i. Suc i < length xs \<longrightarrow> \<not> invalid_pair (xs ! i) (xs ! Suc i))"
proof (induction xs rule: seqs_ordered.induct)
  case 1
  then show ?case by simp
next
  case (2 s)
  then show ?case by simp
next
  case (3 s1 s2 rest)
  show ?case
    by (simp add: "3.IH" All_less_Suc2)
qed

lemma validate_sequences_Inr:
  "(\<exists>tc'. validate_sequences wp isgeo hasz srid prev rest tc = Inr tc') \<longleftrightarrow>
   (seqs_ordered (prev # rest) \<and>
    (wp \<and> isgeo \<longrightarrow> list_all (\<lambda>x. seq_srid x = srid \<and> seq_hasz x = hasz) rest))"
proof (induction rest arbitrary: prev tc)
  case Nil
  then show ?case by simp
next
  case (Cons cur rest)
  show ?case
    by (simp add: Cons.IH invalid_pair_def Let_def)
qed

lemma validate_sequences_Inl:
  "validate_sequences wp isgeo hasz srid prev rest tc = Inl e \<Longrightarrow>
   e \<noteq> NoSequence \<and> e \<noteq> OutOfBoundsRead \<and>
   (e = InvalidSequence \<longrightarrow> \<not> seqs_ordered (prev # rest)) \<and>
   (e \<noteq> InvalidSequence \<longrightarrow> wp \<and> isgeo)"
proof (induction rest arbitrary: prev tc)
  case Nil
  then show ?case by simp
next
  case (Cons cur rest)
  then show ?case
    by (auto simp: invalid_pair_def Let_def split: if_splits)
qed


lemma some_invalid_pair_iff:
  assumes "1 \<le> count" "count \<le> int (length seqs0)"
  shows "some_invalid_pair seqs0 count \<longleftrightarrow> \<not> seqs_ordered (take (nat count) seqs0)"
proof -
  define xs where "xs = take (nat count) seqs0"
  have len: "length xs = nat count" using assms by (simp add: xs_def)
  have nth: "xs ! k = seqs0 ! k" if "k < nat count" for k
    using that by (simp add: xs_def)
  have "\<not> seqs_ordered xs \<longleftrightarrow>
        (\<exists>k. Suc k < nat count \<and> invalid_pair (xs ! k) (xs ! Suc k))"
    by (simp add: seqs_ordered_nth len)
  also have "\<dots> \<longleftrightarrow>
        (\<exists>k. Suc k < nat count \<and> invalid_pair (seqs0 ! k) (seqs0 ! Suc k))"
    using nth by (metis Suc_lessD)
  also have "\<dots> \<longleftrightarrow> some_invalid_pair seqs0 count"
  proof
    assume "\<exists>k. Suc k < nat count \<and> invalid_pair (seqs0 ! k) (seqs0 ! Suc k)"
    then obtain k where k: "Suc k < nat count" "invalid_pair (seqs0 ! k) (seqs0 ! Suc k)"
      by blast
    have "1 \<le> int (Suc k) \<and> int (Suc k) < count \<and>
          invalid_pair (seqs0 ! nat (int (Suc k) - 1)) (seqs0 ! nat (int (Suc k)))"
      using k by (simp del: of_nat_Suc; simp add: nat_less_iff)
    then show "some_invalid_pair seqs0 count"
      unfolding some_invalid_pair_def by blast
  next
    assume "some_invalid_pair seqs0 count"
    then obtain i where i: "1 \<le> i" "i < count"
      "invalid_pair (seqs0 ! nat (i - 1)) (seqs0 ! nat i)"
      unfolding some_invalid_pair_def by blast
    have "Suc (nat (i - 1)) = nat i" using i by simp
    then have "Suc (nat (i - 1)) < nat count \<and>
               invalid_pair (seqs0 ! nat (i - 1)) (seqs0 ! Suc (nat (i - 1)))"
      using i by simp
    then show "\<exists>k. Suc k < nat count \<and> invalid_pair (seqs0 ! k) (seqs0 ! Suc k)" by blast
  qed
  finally show ?thesis by (simp add: xs_def)
qed

lemma some_geo_mismatch_iff:
  assumes "1 \<le> count" "count \<le> int (length seqs0)"
  shows "some_geo_mismatch seqs0 count \<longleftrightarrow>
    \<not> list_all (\<lambda>x. seq_srid x = seq_srid (seqs0 ! 0) \<and> seq_hasz x = seq_hasz (seqs0 ! 0))
        (tl (take (nat count) seqs0))"
proof -
  define xs where "xs = tl (take (nat count) seqs0)"
  let ?P = "\<lambda>x. seq_srid x = seq_srid (seqs0 ! 0) \<and> seq_hasz x = seq_hasz (seqs0 ! 0)"
  have len: "length xs = nat count - 1" using assms by (simp add: xs_def)
  have nth: "xs ! k = seqs0 ! Suc k" if "k < nat count - 1" for k
    using that assms by (simp add: xs_def nth_tl)
  have "\<not> list_all ?P xs \<longleftrightarrow> (\<exists>k < nat count - 1. \<not> ?P (xs ! k))"
    by (simp add: list_all_length len)
  also have "\<dots> \<longleftrightarrow> (\<exists>k < nat count - 1. \<not> ?P (seqs0 ! Suc k))"
    using nth by metis
  also have "\<dots> \<longleftrightarrow> some_geo_mismatch seqs0 count"
  proof
    assume "\<exists>k < nat count - 1. \<not> ?P (seqs0 ! Suc k)"
    then obtain k where k: "k < nat count - 1" "\<not> ?P (seqs0 ! Suc k)" by blast
    have "1 \<le> int (Suc k) \<and> int (Suc k) < count \<and> \<not> ?P (seqs0 ! nat (int (Suc k)))"
      using k by (simp del: of_nat_Suc; simp add: nat_less_iff)
    then show "some_geo_mismatch seqs0 count"
      unfolding some_geo_mismatch_def by blast
  next
    assume "some_geo_mismatch seqs0 count"
    then obtain i where i: "1 \<le> i" "i < count" "\<not> ?P (seqs0 ! nat i)"
      unfolding some_geo_mismatch_def by blast
    have "Suc (nat (i - 1)) = nat i" using i by simp
    then have "nat (i - 1) < nat count - 1 \<and> \<not> ?P (seqs0 ! Suc (nat (i - 1)))"
      using i by auto
    then show "\<exists>k < nat count - 1. \<not> ?P (seqs0 ! Suc k)" by blast
  qed
  finally show ?thesis by (simp add: xs_def)
qed

text \<open>
  On an array that holds no sequence the constructor reads outside of the array, whatever
  \<open>count\<close> is; on an array that holds at least \<open>count \<ge> 1\<close> sequences every read is inside
  of the array, and the constructor validates the first \<open>count\<close> sequences and assembles
  them.
\<close>

lemma temporals_from_temporalseqarr_empty:
  "temporals_from_temporalseqarr wp [] count nrm = Inl OutOfBoundsRead"
  by (simp add: temporals_from_temporalseqarr_def)

lemma temporals_from_temporalseqarr_no_count:
  "seqs0 \<noteq> [] \<Longrightarrow> count < 1 \<Longrightarrow>
   temporals_from_temporalseqarr wp seqs0 count nrm = Inl NoSequence"
  by (cases seqs0) (simp_all add: temporals_from_temporalseqarr_def)

lemma temporals_from_temporalseqarr_in_range:
  assumes c: "1 \<le> count" "count \<le> int (length seqs0)"
    and xs: "take (nat count) seqs0 = x # xs"
  shows "temporals_from_temporalseqarr wp seqs0 count nrm =
     (case validate_sequences wp
             (wp \<and> (seq_valuetypid x = type_oid T_GEOMETRY \<or>
                    seq_valuetypid x = type_oid T_GEOGRAPHY))
             (seq_hasz x) (seq_srid x) x xs True of
        Inl e \<Rightarrow> Inl e
      | Inr tempcontinuous \<Rightarrow>
          Inr \<lparr>sequences =
                 (if nrm \<and> count > 1 then temporalseqarr_normalize (x # xs) else x # xs),
               ts_valuetypid = seq_valuetypid x,
               ts_continuous = seq_continuous
                 (hd (if nrm \<and> count > 1 then temporalseqarr_normalize (x # xs) else x # xs)),
               ts_tempcontinuous = tempcontinuous,
               ts_hasz = ((wp \<and> (seq_valuetypid x = type_oid T_GEOMETRY \<or>
                                  seq_valuetypid x = type_oid T_GEOGRAPHY)) \<and> seq_hasz x),
               bbox = (if temporal_bbox_size (seq_valuetypid x) \<noteq> 0
                       then Some (temporals_make_bbox
                         (if nrm \<and> count > 1 then temporalseqarr_normalize (x # xs)
                          else x # xs))
                       else None)\<rparr>)"
proof -
  obtain y ys where s: "seqs0 = y # ys" using xs by (cases seqs0) auto
  have n: "nat count = Suc (nat (count - 1))" using c by simp
  have t: "take (nat count) seqs0 = y # take (nat (count - 1)) ys"
    unfolding n s by simp
  have y: "y = x" and ys: "take (nat (count - 1)) ys = xs" using t xs by simp_all
  have t2: "take (nat count) (x # ys) = x # xs" using t s y xs by simp
  show ?thesis
    using c s
    by (simp add: temporals_from_temporalseqarr_def y ys t2 Let_def split: sum.splits)
qed

lemma from_temporalseqarr_cases:
  fixes wp nrm :: bool
  assumes c: "1 \<le> count" "count \<le> int (length seqs0)"
  defines "r \<equiv> temporals_from_temporalseqarr wp seqs0 count nrm"
  shows "(\<exists>ts. r = Inr ts) \<longleftrightarrow>
         (\<not> some_invalid_pair seqs0 count \<and>
          \<not> (wp \<and> is_geo seqs0 \<and> some_geo_mismatch seqs0 count))"
    and "r = Inl e \<Longrightarrow> e \<noteq> NoSequence \<and> e \<noteq> OutOfBoundsRead \<and>
          (e = InvalidSequence \<longrightarrow> some_invalid_pair seqs0 count) \<and>
          (e \<noteq> InvalidSequence \<longrightarrow> wp \<and> is_geo seqs0)"
proof -
  let ?xs = "take (nat count) seqs0"
  obtain x xs where xs: "?xs = x # xs"
    using c by (cases ?xs) auto
  have x0: "x = seqs0 ! 0" using xs c
    by (metis hd_conv_nth list.sel(1) list.simps(3) nth_take take_eq_Nil zero_less_iff_neq_zero)
  let ?isgeo = "wp \<and> (seq_valuetypid x = type_oid T_GEOMETRY \<or> seq_valuetypid x = type_oid T_GEOGRAPHY)"
  let ?v = "validate_sequences wp ?isgeo (seq_hasz x) (seq_srid x) x xs True"
  have so: "some_invalid_pair seqs0 count \<longleftrightarrow> \<not> seqs_ordered (x # xs)"
    using some_invalid_pair_iff [OF c] xs by simp
  have sg: "some_geo_mismatch seqs0 count \<longleftrightarrow>
      \<not> list_all (\<lambda>y. seq_srid y = seq_srid x \<and> seq_hasz y = seq_hasz x) xs"
    using some_geo_mismatch_iff [OF c] xs x0 by simp
  have geo: "?isgeo \<longleftrightarrow> wp \<and> is_geo seqs0" by (simp add: is_geo_def x0)
  have "(\<exists>ts. r = Inr ts) \<longleftrightarrow> (\<exists>tc. ?v = Inr tc)"
    using c by (auto simp: r_def temporals_from_temporalseqarr_in_range [OF c xs] split: sum.splits)
  also have "\<dots> \<longleftrightarrow> (\<not> some_invalid_pair seqs0 count \<and>
          \<not> (wp \<and> is_geo seqs0 \<and> some_geo_mismatch seqs0 count))"
    unfolding validate_sequences_Inr so sg using geo by blast
  finally show "(\<exists>ts. r = Inr ts) \<longleftrightarrow>
         (\<not> some_invalid_pair seqs0 count \<and>
          \<not> (wp \<and> is_geo seqs0 \<and> some_geo_mismatch seqs0 count))" .
  assume "r = Inl e"
  then have "?v = Inl e"
    using c by (auto simp: r_def temporals_from_temporalseqarr_in_range [OF c xs] split: sum.splits)
  from validate_sequences_Inl [OF this] so geo
  show "e \<noteq> NoSequence \<and> e \<noteq> OutOfBoundsRead \<and>
          (e = InvalidSequence \<longrightarrow> some_invalid_pair seqs0 count) \<and>
          (e \<noteq> InvalidSequence \<longrightarrow> wp \<and> is_geo seqs0)" by blast
qed

text \<open>
  Claim C2, as stated, fails in a build \<^verbatim>\<open>WITH_POSTGIS\<close>: two geometry sequences
  \<open>[0,10]\<close> and \<open>[20,30]\<close> with SRIDs 4326 and 3857 are two sequences, neither overlapping
  nor touching, and the constructor raises the SRID error instead of returning a
  sequence set.
\<close>

theorem temporals_from_temporalseqarr_srid_counterexample:
  "\<not> (2::int) < 1 \<and> \<not> invalid_pair (geo_seqs ! 0) (geo_seqs ! 1) \<and>
   temporals_from_temporalseqarr True geo_seqs 2 False = Inl DifferentSrid \<and>
   \<not> InvalidSequenceSet DifferentSrid"
  by code_simp

text \<open>
  Claim C2, amended. Given an array that holds at least one sequence and at least
  \<open>count\<close> sequences, \<^verbatim>\<open>temporals_from_temporalseqarr\<close> fails if and only if
  \<open>count < 1\<close>, or some consecutive pair of the input overlaps or touches with both
  bounds inclusive, or, in a build \<^verbatim>\<open>WITH_POSTGIS\<close> and for a geometry or geography
  value type, some sequence differs from the first one in SRID or in dimensionality; on
  every other input it returns a sequence set. Every failure is one of the four errors
  that the function raises, never a read outside of the array. An invalid-sequence-set
  error is only raised when \<open>count < 1\<close> or some pair is invalid. Without PostGIS, or for
  any other value type, the claim holds as stated: the function fails with the
  invalid-sequence-set error if and only if \<open>count < 1\<close> or some pair is invalid, and
  returns a sequence set otherwise. (An array that holds no sequence is outside of this
  statement: there the first statement of the function reads
  \<^verbatim>\<open>sequences[0]\<close> before \<open>count\<close> is tested, see
  \<open>temporals_from_temporalseqarr_empty\<close>.)
\<close>

theorem temporals_from_temporalseqarr_fails_iff:
  assumes "sequences0 \<noteq> []" and "count \<le> int (length sequences0)"
  shows
    "((\<exists>e. temporals_from_temporalseqarr with_postgis sequences0 count do_normalize = Inl e) \<longleftrightarrow>
        count < 1 \<or> some_invalid_pair sequences0 count \<or>
        (with_postgis \<and> is_geo sequences0 \<and> some_geo_mismatch sequences0 count)) \<and>
     ((\<exists>ts. temporals_from_temporalseqarr with_postgis sequences0 count do_normalize = Inr ts) \<longleftrightarrow>
        \<not> (count < 1 \<or> some_invalid_pair sequences0 count \<or>
           (with_postgis \<and> is_geo sequences0 \<and> some_geo_mismatch sequences0 count))) \<and>
     temporals_from_temporalseqarr with_postgis sequences0 count do_normalize \<noteq>
        Inl OutOfBoundsRead \<and>
     (\<forall>e. temporals_from_temporalseqarr with_postgis sequences0 count do_normalize = Inl e \<and>
          InvalidSequenceSet e \<longrightarrow>
          count < 1 \<or> some_invalid_pair sequences0 count) \<and>
     (\<not> (with_postgis \<and> is_geo sequences0) \<longrightarrow>
        ((\<exists>e. temporals_from_temporalseqarr with_postgis sequences0 count do_normalize = Inl e \<and>
              InvalidSequenceSet e) \<longleftrightarrow>
           count < 1 \<or> some_invalid_pair sequences0 count) \<and>
        ((\<exists>ts. temporals_from_temporalseqarr with_postgis sequences0 count do_normalize = Inr ts)
           \<longleftrightarrow> \<not> (count < 1 \<or> some_invalid_pair sequences0 count)))"
proof (cases "count < 1")
  case True
  then have "temporals_from_temporalseqarr with_postgis sequences0 count do_normalize =
             Inl NoSequence"
    using assms(1) by (rule_tac temporals_from_temporalseqarr_no_count)
  with True show ?thesis by (simp add: InvalidSequenceSet_def)
next
  case False
  then have c: "1 \<le> count" by simp
  let ?r = "temporals_from_temporalseqarr with_postgis sequences0 count do_normalize"
  let ?bad = "some_invalid_pair sequences0 count"
  let ?geo = "with_postgis \<and> is_geo sequences0"
  let ?mis = "some_geo_mismatch sequences0 count"
  have ok: "(\<exists>ts. ?r = Inr ts) \<longleftrightarrow> (\<not> ?bad \<and> \<not> (?geo \<and> ?mis))"
    using from_temporalseqarr_cases(1) [OF c assms(2)] by blast
  have err: "e \<noteq> NoSequence \<and> e \<noteq> OutOfBoundsRead \<and>
             (e = InvalidSequence \<longrightarrow> ?bad) \<and> (e \<noteq> InvalidSequence \<longrightarrow> ?geo)"
    if "?r = Inl e" for e
    using from_temporalseqarr_cases(2) [OF c assms(2) that] by blast
  have oob: "?r \<noteq> Inl OutOfBoundsRead" using err by blast
  have sum: "(\<exists>e. ?r = Inl e) \<longleftrightarrow> \<not> (\<exists>ts. ?r = Inr ts)"
    by (cases ?r) auto
  have a: "(\<exists>e. ?r = Inl e) \<longleftrightarrow> count < 1 \<or> ?bad \<or> (?geo \<and> ?mis)"
    using sum ok False by blast
  have b: "(\<exists>ts. ?r = Inr ts) \<longleftrightarrow> \<not> (count < 1 \<or> ?bad \<or> (?geo \<and> ?mis))"
    using ok False by blast
  have d: "\<forall>e. ?r = Inl e \<and> InvalidSequenceSet e \<longrightarrow> count < 1 \<or> ?bad"
    using err by (auto simp: InvalidSequenceSet_def)
  have e: "\<not> ?geo \<longrightarrow>
        ((\<exists>e. ?r = Inl e \<and> InvalidSequenceSet e) \<longleftrightarrow> count < 1 \<or> ?bad) \<and>
        ((\<exists>ts. ?r = Inr ts) \<longleftrightarrow> \<not> (count < 1 \<or> ?bad))"
  proof
    assume ng: "\<not> ?geo"
    have "(\<exists>e. ?r = Inl e \<and> InvalidSequenceSet e) \<longleftrightarrow> (\<exists>e. ?r = Inl e)"
      using err ng by (auto simp: InvalidSequenceSet_def)
    with a b ng show "((\<exists>e. ?r = Inl e \<and> InvalidSequenceSet e) \<longleftrightarrow> count < 1 \<or> ?bad) \<and>
        ((\<exists>ts. ?r = Inr ts) \<longleftrightarrow> \<not> (count < 1 \<or> ?bad))"
      by blast
  qed
  from a b oob d e show ?thesis by blast
qed

theorem temporals_from_temporalseqarr_fails_iff_witness:
  "geo_seqs \<noteq> [] \<and> (2::int) \<le> int (length geo_seqs) \<and>
   is_geo geo_seqs \<and> some_geo_mismatch geo_seqs 2 \<and>
   (\<exists>e. temporals_from_temporalseqarr True geo_seqs 2 False = Inl e) \<and>
   (\<exists>ts. temporals_from_temporalseqarr False geo_seqs 2 False = Inr ts)"
proof -
  have ne: "geo_seqs \<noteq> []" by code_simp
  have l: "(2::int) \<le> int (length geo_seqs)" by code_simp
  have g: "is_geo geo_seqs" by code_simp
  have o: "seqs_ordered (take (nat 2) geo_seqs)" by code_simp
  have m: "\<not> list_all (\<lambda>x. seq_srid x = seq_srid (geo_seqs ! 0) \<and>
              seq_hasz x = seq_hasz (geo_seqs ! 0)) (tl (take (nat 2) geo_seqs))"
    by code_simp
  have nb: "\<not> some_invalid_pair geo_seqs 2"
    using some_invalid_pair_iff [of 2 geo_seqs] l o by simp
  have mm: "some_geo_mismatch geo_seqs 2"
    using some_geo_mismatch_iff [of 2 geo_seqs] l m by simp
  from temporals_from_temporalseqarr_fails_iff [OF ne l, of True False] g mm
  have 1: "\<exists>e. temporals_from_temporalseqarr True geo_seqs 2 False = Inl e" by blast
  from temporals_from_temporalseqarr_fails_iff [OF ne l, of False False] nb
  have 2: "\<exists>ts. temporals_from_temporalseqarr False geo_seqs 2 False = Inr ts" by simp
  from ne l g mm 1 2 show ?thesis by blast
qed

section \<open>Round trip of the wire form\<close>

lemma length_be_bytes [simp]: "length (be_bytes n u) = n"
  by (induction n arbitrary: u) auto

lemma be_value_snoc: "be_value (bs @ [b]) = be_value bs * 256 + b"
  by (simp add: be_value_def)

lemma be_value_be_bytes: "0 \<le> u \<Longrightarrow> u < 256 ^ n \<Longrightarrow> be_value (be_bytes n u) = u"
proof (induction n arbitrary: u)
  case 0
  then show ?case by (simp add: be_value_def)
next
  case (Suc n)
  have "0 \<le> u div 256" using Suc.prems by simp
  moreover have "u div 256 < 256 ^ n"
  proof -
    have "u = u div 256 * 256 + u mod 256" by simp
    moreover have "0 \<le> u mod 256" by simp
    moreover have "u < 256 * 256 ^ n" using Suc.prems by simp
    ultimately show ?thesis by linarith
  qed
  ultimately have "be_value (be_bytes n (u div 256)) = u div 256" by (rule Suc.IH)
  then show ?case by (simp add: be_value_snoc)
qed

lemma pq_roundtrip:
  "pq_getmsgint (pq_sendint i b @ rest) b = Some (i mod 256 ^ b, rest)"
  by (simp add: pq_getmsgint_def pq_sendint_def be_value_be_bytes)

lemma signed_roundtrip:
  assumes "- (256 ^ b div 2) \<le> i" "i < 256 ^ b div 2" "0 < b"
  shows "signed_of b (i mod 256 ^ b) = i"
proof -
  let ?m = "256 ^ b :: int"
  have ev: "?m div 2 * 2 = ?m"
    using assms(3) by (cases b) simp_all
  show ?thesis
  proof (cases "0 \<le> i")
    case True
    then have "i mod ?m = i" using assms ev by (intro mod_pos_pos_trivial) linarith+
    then show ?thesis using assms by (simp add: signed_of_def)
  next
    case False
    have "(i + ?m) mod ?m = i + ?m"
      using False assms ev by (intro mod_pos_pos_trivial) linarith+
    moreover have "(i + ?m) mod ?m = i mod ?m" by (rule mod_add_self2)
    ultimately have m: "i mod ?m = i + ?m" by simp
    show ?thesis unfolding signed_of_def m using False assms ev by simp
  qed
qed

lemma write_sequences_concat:
  "write_sequences w seqs buf = buf @ concat (map w seqs)"
  by (induction seqs arbitrary: buf) auto

lemma read_sequences_write:
  "\<forall>seq \<in> set seqs. \<forall>rest. r (w seq @ rest) ty = Some (seq, rest) \<Longrightarrow>
   read_sequences r ty (length seqs) (concat (map w seqs) @ rest) = Some (seqs, rest)"
  by (induction seqs) auto

text \<open>
  Claim C8. Let \<open>x\<close> be a sequence set as the constructor builds it, with fewer than
  \<open>2^31\<close> sequences, and let the sequence-level reader undo the sequence-level writer
  on the sequences of \<open>x\<close>. The wire form of \<open>x\<close> is its count in 4 bytes followed by
  the encodings of its sequences one after the other; reading it back with the value
  type of \<open>x\<close>, through the constructor with \<open>normalize = false\<close>, gives \<open>x\<close> itself and
  leaves what followed; and writing what was read gives the same bytes again.
\<close>

theorem temporals_read_write_roundtrip:
  assumes "constructed with_postgis x" and "ts_count x < 2147483648"
    and "\<forall>seq \<in> set (sequences x). \<forall>rest.
           temporalseq_read (temporalseq_write seq @ rest) (ts_valuetypid x) = Some (seq, rest)"
  shows
    "temporals_write temporalseq_write x [] =
       pq_sendint (ts_count x) 4 @ concat (map temporalseq_write (sequences x)) \<and>
     temporals_read with_postgis temporalseq_read
       (temporals_write temporalseq_write x [] @ rest) (ts_valuetypid x) = Inr (x, rest) \<and>
     (\<forall>y rest'.
        temporals_read with_postgis temporalseq_read
          (temporals_write temporalseq_write x []) (ts_valuetypid x) = Inr (y, rest') \<longrightarrow>
        temporals_write temporalseq_write y [] = temporals_write temporalseq_write x [])"
proof -
  let ?b = "temporals_write temporalseq_write x []"
  have wf: "?b = pq_sendint (ts_count x) 4 @ concat (map temporalseq_write (sequences x))"
    by (simp add: temporals_write_def write_sequences_concat)
  have c0: "0 \<le> ts_count x" by (simp add: ts_count_def)
  have s: "signed_of 4 (ts_count x mod 4294967296) = ts_count x"
    using signed_roundtrip [of 4 "ts_count x"] assms(2) c0 by simp
  have n: "nat (ts_count x) = length (sequences x)" by (simp add: ts_count_def)
  have rs: "read_sequences temporalseq_read (ts_valuetypid x) (length (sequences x))
              (concat (map temporalseq_write (sequences x)) @ rest') =
            Some (sequences x, rest')" for rest'
    using assms(3) by (rule read_sequences_write)
  have rd: "temporals_read with_postgis temporalseq_read (?b @ rest') (ts_valuetypid x) =
            Inr (x, rest')" for rest'
    using assms(1) c0
    by (simp add: wf temporals_read_def pq_roundtrip s n rs constructed_def)
  have rd0: "temporals_read with_postgis temporalseq_read ?b (ts_valuetypid x) = Inr (x, [])"
    using rd [of "[]"] by simp
  from wf rd rd0 show ?thesis by simp
qed

lemma temporalinst_roundtrip:
  assumes "int64 (temporalinst_value inst)" "int64 (inst_t inst)"
  shows "temporalinst_read (temporalinst_write inst @ rest) = Some (inst, rest)"
proof -
  have v: "signed_of 8 (temporalinst_value inst mod 256 ^ 8) = temporalinst_value inst"
    using assms(1) by (intro signed_roundtrip) (simp_all add: int64_def)
  have t: "signed_of 8 (inst_t inst mod 256 ^ 8) = inst_t inst"
    using assms(2) by (intro signed_roundtrip) (simp_all add: int64_def)
  have 1: "pq_getmsgint (pq_sendint (temporalinst_value inst) 8 @
                          pq_sendint (inst_t inst) 8 @ rest) 8 =
           Some (temporalinst_value inst mod 256 ^ 8, pq_sendint (inst_t inst) 8 @ rest)"
    by (rule pq_roundtrip)
  have 2: "pq_getmsgint (pq_sendint (inst_t inst) 8 @ rest) 8 =
           Some (inst_t inst mod 256 ^ 8, rest)"
    by (rule pq_roundtrip)
  show ?thesis
    unfolding temporalinst_read_def temporalinst_write_def append_assoc
    by (simp only: 1 2 option.case prod.case v t) simp
qed

lemma read_instants_roundtrip:
  "list_all (\<lambda>inst. int64 (temporalinst_value inst) \<and> int64 (inst_t inst)) insts \<Longrightarrow>
   read_instants (length insts) (concat (map temporalinst_write insts) @ rest) =
     Some (insts, rest)"
  by (induction insts) (simp_all add: temporalinst_roundtrip)

lemma wire_temporalseq_roundtrip:
  assumes "wire_ok valuetypid seq"
  shows "wire_temporalseq_read (wire_temporalseq_write seq @ rest) valuetypid =
           Some (seq, rest)"
proof -
  have ne: "instants seq \<noteq> []" using assms by (simp add: wire_ok_def period_matches_instants_def)
  then have c1: "1 \<le> seq_count seq" by (cases "instants seq") (simp_all add: seq_count_def)
  have c: "signed_of 4 (seq_count seq mod 256 ^ 4) = seq_count seq"
    using assms c1 by (intro signed_roundtrip) (simp_all add: wire_ok_def)
  have n: "nat (seq_count seq) = length (instants seq)" by (simp add: seq_count_def)
  have ri: "read_instants (length (instants seq))
              (concat (map temporalinst_write (instants seq)) @ rest) =
            Some (instants seq, rest)"
    using assms by (intro read_instants_roundtrip) (simp add: wire_ok_def)
  have eq: "\<lparr>instants = instants seq,
             period = \<lparr>lower = inst_t (hd (instants seq)), upper = inst_t (last (instants seq)),
                       lower_inc = lower_inc (period seq), upper_inc = upper_inc (period seq)\<rparr>,
             seq_valuetypid = valuetypid, seq_continuous = (valuetypid = FLOAT8OID),
             seq_hasz = False, seq_srid = 0\<rparr> = seq"
    using assms by (cases seq; cases "period seq")
      (auto simp: wire_ok_def period_matches_instants_def)
  have "wire_temporalseq_read (wire_temporalseq_write seq @ rest) valuetypid =
        Some (\<lparr>instants = instants seq,
             period = \<lparr>lower = inst_t (hd (instants seq)), upper = inst_t (last (instants seq)),
                       lower_inc = lower_inc (period seq), upper_inc = upper_inc (period seq)\<rparr>,
             seq_valuetypid = valuetypid, seq_continuous = (valuetypid = FLOAT8OID),
             seq_hasz = False, seq_srid = 0\<rparr>, rest)"
    unfolding wire_temporalseq_read_def wire_temporalseq_write_def append_assoc pq_roundtrip
    using c1 by (simp only: option.case prod.case c n append_Cons append_Nil list.case ri)
      simp
  then show ?thesis by (simp only: eq)
qed

theorem temporals_read_write_roundtrip_witness:
  "constructed True example_ts \<and> ts_count example_ts < 2147483648 \<and>
   temporals_write wire_temporalseq_write example_ts [] =
     [0, 0, 0, 3,
      0, 0, 0, 2, 1, 1, 0, 0, 0, 0, 0, 0, 0, 1, 0, 0, 0, 0, 0, 0, 0, 0,
                        0, 0, 0, 0, 0, 0, 0, 2, 0, 0, 0, 0, 0, 0, 0, 10,
      0, 0, 0, 2, 1, 1, 0, 0, 0, 0, 0, 0, 0, 3, 0, 0, 0, 0, 0, 0, 0, 20,
                        0, 0, 0, 0, 0, 0, 0, 3, 0, 0, 0, 0, 0, 0, 0, 30,
      0, 0, 0, 2, 1, 1, 0, 0, 0, 0, 0, 0, 0, 1, 0, 0, 0, 0, 0, 0, 0, 40,
                        0, 0, 0, 0, 0, 0, 0, 5, 0, 0, 0, 0, 0, 0, 0, 50] \<and>
   temporals_read True wire_temporalseq_read
     (temporals_write wire_temporalseq_write example_ts []) INT4OID = Inr (example_ts, [])"
proof -
  have c: "constructed True example_ts" by code_simp
  have n: "ts_count example_ts < 2147483648" by code_simp
  have ty: "ts_valuetypid example_ts = INT4OID" by code_simp
  have ok: "list_all (wire_ok INT4OID) (sequences example_ts)" by code_simp
  have h: "\<forall>seq \<in> set (sequences example_ts). \<forall>rest.
             wire_temporalseq_read (wire_temporalseq_write seq @ rest)
               (ts_valuetypid example_ts) = Some (seq, rest)"
    using ok wire_temporalseq_roundtrip by (simp add: ty list_all_iff)
  have b: "temporals_write wire_temporalseq_write example_ts [] =
     [0, 0, 0, 3,
      0, 0, 0, 2, 1, 1, 0, 0, 0, 0, 0, 0, 0, 1, 0, 0, 0, 0, 0, 0, 0, 0,
                        0, 0, 0, 0, 0, 0, 0, 2, 0, 0, 0, 0, 0, 0, 0, 10,
      0, 0, 0, 2, 1, 1, 0, 0, 0, 0, 0, 0, 0, 3, 0, 0, 0, 0, 0, 0, 0, 20,
                        0, 0, 0, 0, 0, 0, 0, 3, 0, 0, 0, 0, 0, 0, 0, 30,
      0, 0, 0, 2, 1, 1, 0, 0, 0, 0, 0, 0, 0, 1, 0, 0, 0, 0, 0, 0, 0, 40,
                        0, 0, 0, 0, 0, 0, 0, 5, 0, 0, 0, 0, 0, 0, 0, 50]"
    by code_simp
  note rt = temporals_read_write_roundtrip
              [of True example_ts wire_temporalseq_read wire_temporalseq_write "[]", OF c n h]
  from rt [THEN conjunct2, THEN conjunct1]
  have "temporals_read True wire_temporalseq_read
     (temporals_write wire_temporalseq_write example_ts []) INT4OID = Inr (example_ts, [])"
    by (simp add: ty)
  with c n b show ?thesis by simp
qed

section \<open>The fragments collected for the minimum and the maximum\<close>

lemma append_fragments_later:
  "0 < j \<Longrightarrow> append_fragments allseqs frags j = allseqs @ frags"
  by (induction frags arbitrary: allseqs j) (simp_all add: Let_def)

lemma append_fragments_first:
  "append_fragments allseqs (frag # rest) 0 =
     (if allseqs \<noteq> [] \<and> touch_inclusive (last allseqs) frag
      then butlast allseqs @ [open_upper (last allseqs)]
      else allseqs) @ frag # rest"
proof (cases allseqs rule: rev_cases)
  case Nil
  then show ?thesis by (simp add: Let_def append_fragments_later)
next
  case (snoc ys p)
  have n1: "(ys @ [p, frag]) ! length ys = p" by (simp add: nth_append)
  have n2: "(ys @ [p, frag]) ! Suc (length ys) = frag" by (simp add: nth_append)
  have u: "(ys @ [p, frag])[length ys := z] = ys @ [z, frag]" for z
    by (simp add: list_update_append)
  show ?thesis
    unfolding snoc
    by (simp add: Let_def append_fragments_later n1 n2 u touch_inclusive_def open_upper_def
        timestamp_cmp_internal_def)
qed

lemma seqs_ordered_append:
  "seqs_ordered (xs @ ys) \<longleftrightarrow>
     seqs_ordered xs \<and> seqs_ordered ys \<and>
     (xs \<noteq> [] \<and> ys \<noteq> [] \<longrightarrow> \<not> invalid_pair (last xs) (hd ys))"
proof (induction xs rule: seqs_ordered.induct)
  case 1
  then show ?case by simp
next
  case (2 s)
  then show ?case by (cases ys) auto
next
  case (3 s1 s2 rest)
  then show ?case by auto
qed

lemma seqs_ordered_open_last:
  assumes "seqs_ordered xs" "xs \<noteq> []"
  shows "seqs_ordered (butlast xs @ [open_upper (last xs)])"
proof -
  have "seqs_ordered (butlast xs @ [last xs])" using assms by simp
  then show ?thesis
    by (simp add: seqs_ordered_append invalid_pair_def open_upper_def)
qed


lemma append_fragments_inv:
  assumes o: "seqs_ordered allseqs"
    and b: "allseqs \<noteq> [] \<longrightarrow> upper (period (last allseqs)) \<le> lo"
    and lh: "lo \<le> hi"
    and fo: "seqs_ordered frags"
    and fw: "\<forall>f \<in> set frags. lo \<le> lower (period f) \<and> upper (period f) \<le> hi"
  shows "seqs_ordered (append_fragments allseqs frags 0) \<and>
         (append_fragments allseqs frags 0 \<noteq> [] \<longrightarrow>
          upper (period (last (append_fragments allseqs frags 0))) \<le> hi)"
proof (cases frags)
  case Nil
  then show ?thesis using o b lh by auto
next
  case (Cons f rest)
  let ?fix = "allseqs \<noteq> [] \<and> touch_inclusive (last allseqs) f"
  let ?A = "if ?fix then butlast allseqs @ [open_upper (last allseqs)] else allseqs"
  have r: "append_fragments allseqs frags 0 = ?A @ f # rest"
    unfolding Cons by (rule append_fragments_first)
  have oa: "seqs_ordered ?A"
    using o seqs_ordered_open_last by simp
  have lf: "lo \<le> lower (period f)" using fw Cons by simp
  have pair: "\<not> invalid_pair (last ?A) f" if "?A \<noteq> []"
  proof (cases ?fix)
    case True
    then show ?thesis
      by (simp add: invalid_pair_def open_upper_def touch_inclusive_def
          timestamp_cmp_internal_def)
  next
    case False
    then have ne: "allseqs \<noteq> []" using that by auto
    then have "upper (period (last allseqs)) \<le> lower (period f)" using b lf by simp
    then show ?thesis
      using False ne
      by (auto simp: invalid_pair_def touch_inclusive_def timestamp_cmp_internal_def
          split: if_splits)
  qed
  have "seqs_ordered (?A @ f # rest)"
    unfolding seqs_ordered_append using oa fo pair Cons by simp
  moreover have "last (?A @ f # rest) \<in> set frags"
    unfolding Cons by (metis last_appendR last_in_set list.simps(3))
  ultimately show ?thesis using fw r by auto
qed

lemma collect_fragments_ordered:
  fixes F :: "TemporalSeq \<Rightarrow> TemporalSeq list"
  assumes "list_all (\<lambda>s. period_valid (period s)) seqs" and "seqs_ordered seqs"
    and "list_all (\<lambda>seq. seqs_ordered (F (inclusive_copy seq)) \<and>
           list_all (\<lambda>frag. within_closed (period frag) (period (inclusive_copy seq)))
                    (F (inclusive_copy seq))) seqs"
    and "seqs_ordered allseqs"
    and "allseqs \<noteq> [] \<and> seqs \<noteq> [] \<longrightarrow>
         upper (period (last allseqs)) \<le> lower (period (hd seqs))"
  shows "seqs_ordered (collect_fragments allseqs (map (\<lambda>seq. F (inclusive_copy seq)) seqs))"
  using assms
proof (induction seqs arbitrary: allseqs)
  case Nil
  then show ?case by simp
next
  case (Cons s rest)
  let ?frags = "F (inclusive_copy s)"
  let ?A = "append_fragments allseqs ?frags 0"
  have pv: "lower (period s) \<le> upper (period s)"
    using Cons.prems(1) by (auto simp: period_valid_def)
  have fw: "\<forall>f \<in> set ?frags. lower (period s) \<le> lower (period f) \<and>
              upper (period f) \<le> upper (period s)"
    using Cons.prems(3) by (auto simp: list_all_iff within_closed_def inclusive_copy_def)
  have inv: "seqs_ordered ?A \<and> (?A \<noteq> [] \<longrightarrow> upper (period (last ?A)) \<le> upper (period s))"
    using Cons.prems(3,4,5) pv fw by (intro append_fragments_inv) auto
  have nxt: "?A \<noteq> [] \<and> rest \<noteq> [] \<longrightarrow> upper (period (last ?A)) \<le> lower (period (hd rest))"
  proof (cases rest)
    case Nil
    then show ?thesis by simp
  next
    case (Cons s2 rest2)
    then have "\<not> invalid_pair s s2" using Cons.prems(2) by simp
    then have "upper (period s) \<le> lower (period s2)"
      by (auto simp: invalid_pair_def timestamp_cmp_internal_def split: if_splits)
    then show ?thesis using inv Cons by auto
  qed
  have "seqs_ordered (collect_fragments ?A (map (\<lambda>seq. F (inclusive_copy seq)) rest))"
    using Cons.prems(1,2,3) inv nxt seqs_ordered_tl [of s rest]
    by (intro Cons.IH) auto
  then show ?case by simp
qed

lemma length_append_fragments:
  "length (append_fragments allseqs frags j) = length allseqs + length frags"
  by (induction frags arbitrary: allseqs j) (simp_all add: Let_def)

lemma length_collect_fragments:
  "int (length (collect_fragments allseqs fs)) =
   int (length allseqs) + sum_list (map (\<lambda>frags. int (length frags)) fs)"
  by (induction fs arbitrary: allseqs) (simp_all add: length_append_fragments)

lemma seqs_ordered_cong_upper:
  "upper (period a) = upper (period b) \<Longrightarrow> upper_inc (period a) = upper_inc (period b) \<Longrightarrow>
   seqs_ordered (a # rest) = seqs_ordered (b # rest)"
  by (cases rest) (simp_all add: invalid_pair_def)

lemma hd_temporalseqarr_normalize:
  "xs \<noteq> [] \<Longrightarrow>
   temporalseqarr_normalize xs \<noteq> [] \<and>
   lower (period (hd (temporalseqarr_normalize xs))) = lower (period (hd xs)) \<and>
   lower_inc (period (hd (temporalseqarr_normalize xs))) = lower_inc (period (hd xs))"
  by (induction xs rule: temporalseqarr_normalize.induct)
     (simp_all add: temporalseq_join_def)

lemma seqs_ordered_normalize:
  "seqs_ordered xs \<Longrightarrow> seqs_ordered (temporalseqarr_normalize xs)"
proof (induction xs rule: temporalseqarr_normalize.induct)
  case 1
  then show ?case by simp
next
  case (2 s)
  then show ?case by simp
next
  case (3 s1 s2 rest)
  show ?case
  proof (cases "mergeable s1 s2")
    case True
    have "seqs_ordered (temporalseq_join s1 s2 # rest) = seqs_ordered (s2 # rest)"
      by (rule seqs_ordered_cong_upper) (simp_all add: temporalseq_join_def)
    then show ?thesis using True "3.IH"(1) "3.prems" by simp
  next
    case False
    let ?n = "temporalseqarr_normalize (s2 # rest)"
    have o: "seqs_ordered ?n" using False "3.IH"(2) "3.prems" by simp
    have h: "?n \<noteq> [] \<and> lower (period (hd ?n)) = lower (period s2) \<and>
             lower_inc (period (hd ?n)) = lower_inc (period s2)"
      using hd_temporalseqarr_normalize [of "s2 # rest"] by simp
    then obtain b ys where n: "?n = b # ys" by (cases ?n) auto
    have "\<not> invalid_pair s1 b"
      using "3.prems" h n by (simp add: invalid_pair_def)
    then show ?thesis using False o n by simp
  qed
qed

lemma from_temporalseqarr_ordered:
  assumes o: "seqs_ordered allseqs"
  shows "temporals_from_temporalseqarr wp allseqs (int (length allseqs)) nrm \<noteq>
           Inl InvalidSequence \<and>
         (\<forall>r. temporals_from_temporalseqarr wp allseqs (int (length allseqs)) nrm = Inr r \<longrightarrow>
              seqs_ordered (sequences r))"
proof (cases allseqs)
  case Nil
  then show ?thesis by (simp add: temporals_from_temporalseqarr_def)
next
  case (Cons x xs)
  let ?isgeo = "wp \<and> (seq_valuetypid x = type_oid T_GEOMETRY \<or>
                     seq_valuetypid x = type_oid T_GEOGRAPHY)"
  let ?v = "validate_sequences wp ?isgeo (seq_hasz x) (seq_srid x) x xs True"
  let ?r = "temporals_from_temporalseqarr wp allseqs (int (length allseqs)) nrm"
  have ni: "?v \<noteq> Inl InvalidSequence"
    using validate_sequences_Inl [of wp ?isgeo "seq_hasz x" "seq_srid x" x xs True
            InvalidSequence] o Cons
    by auto
  have c: "1 \<le> int (length allseqs)" "int (length allseqs) \<le> int (length allseqs)"
    using Cons by simp_all
  have t: "take (nat (int (length allseqs))) allseqs = x # xs" using Cons by simp
  note unf = temporals_from_temporalseqarr_in_range [OF c t]
  have a: "?r \<noteq> Inl InvalidSequence"
    using ni by (auto simp: unf split: sum.splits)
  have b: "seqs_ordered (sequences r)" if "?r = Inr r" for r
  proof -
    from that have "sequences r = x # xs \<or> sequences r = temporalseqarr_normalize (x # xs)"
      unfolding unf by (auto split: sum.splits if_splits)
    then show ?thesis using o seqs_ordered_normalize Cons by auto
  qed
  from a b show ?thesis by blast
qed

lemma temporals_at_minmax_ordered:
  assumes v: "valid_sequences (sequences ts)" and f: "fragments_ok m ts value1"
  shows "temporals_at_minmax with_postgis m ts value1 \<noteq> Inl InvalidSequence \<and>
         (\<forall>r. temporals_at_minmax with_postgis m ts value1 = Inr r \<longrightarrow>
              seqs_ordered (sequences r))"
proof -
  let ?F = "\<lambda>seq1. temporalseq_at_value2 m seq1 value1 (seq_valuetypid seq1)"
  let ?fs = "map (\<lambda>seq. ?F (inclusive_copy seq)) (sequences ts)"
  let ?all = "collect_fragments [] ?fs"
  let ?total = "sum_list (map (\<lambda>frags. int (length frags)) ?fs)"
  have len: "?total = int (length ?all)"
    using length_collect_fragments [of "[]" ?fs] by simp
  have r: "temporals_at_minmax with_postgis m ts value1 =
           temporals_from_temporalseqarr with_postgis ?all (int (length ?all)) True"
    unfolding len [symmetric] by (simp add: temporals_at_minmax_def Let_def)
  have o: "seqs_ordered ?all"
  proof (rule collect_fragments_ordered)
    show "list_all (\<lambda>s. period_valid (period s)) (sequences ts)"
      using v by (simp add: valid_sequences_def)
    show "seqs_ordered (sequences ts)" using v by (simp add: valid_sequences_def)
    show "list_all (\<lambda>seq. seqs_ordered (?F (inclusive_copy seq)) \<and>
           list_all (\<lambda>frag. within_closed (period frag) (period (inclusive_copy seq)))
                    (?F (inclusive_copy seq))) (sequences ts)"
      using f by (simp add: fragments_ok_def Let_def)
  qed simp_all
  show ?thesis unfolding r by (rule from_temporalseqarr_ordered [OF o])
qed

text \<open>
  Claim C6. Let the sequences of \<open>ts\<close> be valid, ordered and disjoint, and let the
  sequence module give, for the inclusive copy of each sequence, ordered and disjoint
  fragments inside the closed period of the sequence (and, for a set of one sequence,
  an ordered result of its own). Then the constructor's test of consecutive sequences
  never fails on the fragments that \<^verbatim>\<open>temporals_at_min\<close> and \<^verbatim>\<open>temporals_at_max\<close>
  collect, and in a result no two consecutive sequences overlap or touch with both
  bounds inclusive.
\<close>

theorem temporals_at_min_max_ordered:
  assumes "valid_sequences (sequences ts)"
    and "fragments_ok m ts (temporals_min_value m ts)"
    and "fragments_ok m ts (temporals_max_value m ts)"
    and "ts_count ts = 1 \<longrightarrow> singleton_ok m ts"
  shows
    "temporals_at_min with_postgis m ts \<noteq> Inl InvalidSequence \<and>
     temporals_at_max with_postgis m ts \<noteq> Inl InvalidSequence \<and>
     (\<forall>r. temporals_at_min with_postgis m ts = Inr r \<or>
          temporals_at_max with_postgis m ts = Inr r \<longrightarrow>
          seqs_ordered (sequences r) \<and>
          (\<forall>i. 1 \<le> i \<and> i < ts_count r \<longrightarrow>
               \<not> invalid_pair (temporals_seq_n r (i - 1)) (temporals_seq_n r i)))"
proof -
  have idx: "\<forall>i. 1 \<le> i \<and> i < ts_count r \<longrightarrow>
               \<not> invalid_pair (temporals_seq_n r (i - 1)) (temporals_seq_n r i)"
    if o: "seqs_ordered (sequences r)" for r
  proof (intro allI impI)
    fix i assume i: "1 \<le> i \<and> i < ts_count r"
    then have "Suc (nat (i - 1)) < length (sequences r)" unfolding ts_count_def by arith
    with o have "\<not> invalid_pair (sequences r ! nat (i - 1)) (sequences r ! Suc (nat (i - 1)))"
      unfolding seqs_ordered_nth by blast
    moreover have "Suc (nat (i - 1)) = nat i" using i by arith
    ultimately show "\<not> invalid_pair (temporals_seq_n r (i - 1)) (temporals_seq_n r i)"
      by (simp add: temporals_seq_n_def)
  qed
  have mn: "temporals_at_min with_postgis m ts \<noteq> Inl InvalidSequence \<and>
            (\<forall>r. temporals_at_min with_postgis m ts = Inr r \<longrightarrow> seqs_ordered (sequences r))"
  proof (cases "ts_count ts = 1")
    case True
    then have "singleton_ok m ts" using assms(4) by simp
    then show ?thesis
      using True by (auto simp: temporals_at_min_def singleton_ok_def Let_def split: sum.splits)
  next
    case False
    then show ?thesis
      using temporals_at_minmax_ordered [OF assms(1,2)] by (simp add: temporals_at_min_def)
  qed
  have mx: "temporals_at_max with_postgis m ts \<noteq> Inl InvalidSequence \<and>
            (\<forall>r. temporals_at_max with_postgis m ts = Inr r \<longrightarrow> seqs_ordered (sequences r))"
  proof (cases "ts_count ts = 1")
    case True
    then have "singleton_ok m ts" using assms(4) by simp
    then show ?thesis
      using True by (auto simp: temporals_at_max_def singleton_ok_def Let_def split: sum.splits)
  next
    case False
    then show ?thesis
      using temporals_at_minmax_ordered [OF assms(1,3)] by (simp add: temporals_at_max_def)
  qed
  from mn mx idx show ?thesis by blast
qed

text \<open>
  On \<open>[1@0, 1@10)\<close>, \<open>[1@10, 1@20]\<close>, \<open>[3@30, 3@40]\<close> the inclusive copies of the first
  two sequences touch at 10 with both bounds inclusive, which the constructor rejects;
  after the fix-up the restriction to the minimum is the single sequence over
  \<open>[0,20]\<close>.
\<close>

theorem temporals_at_min_max_ordered_witness:
  "valid_sequences (sequences touch_ts) \<and>
   fragments_ok constant_module touch_ts (temporals_min_value constant_module touch_ts) \<and>
   fragments_ok constant_module touch_ts (temporals_max_value constant_module touch_ts) \<and>
   temporals_from_temporalseqarr True
     (map inclusive_copy (take 2 (sequences touch_ts))) 2 True = Inl InvalidSequence \<and>
   (\<exists>r. temporals_at_min True constant_module touch_ts = Inr r \<and>
        map period (sequences r) =
          [\<lparr>lower = 0, upper = 20, lower_inc = True, upper_inc = True\<rparr>] \<and>
        seqs_ordered (sequences r))"
proof -
  have v: "valid_sequences (sequences touch_ts)" by code_simp
  have f1: "fragments_ok constant_module touch_ts (temporals_min_value constant_module touch_ts)"
    by code_simp
  have f2: "fragments_ok constant_module touch_ts (temporals_max_value constant_module touch_ts)"
    by code_simp
  have s: "ts_count touch_ts = 1 \<longrightarrow> singleton_ok constant_module touch_ts" by code_simp
  have bad: "temporals_from_temporalseqarr True
     (map inclusive_copy (take 2 (sequences touch_ts))) 2 True = Inl InvalidSequence"
    by code_simp
  have "case temporals_at_min True constant_module touch_ts of
          Inl e \<Rightarrow> False
        | Inr r \<Rightarrow> map period (sequences r) =
                    [\<lparr>lower = 0, upper = 20, lower_inc = True, upper_inc = True\<rparr>]"
    by code_simp
  then obtain r where r: "temporals_at_min True constant_module touch_ts = Inr r"
    and p: "map period (sequences r) =
              [\<lparr>lower = 0, upper = 20, lower_inc = True, upper_inc = True\<rparr>]"
    by (auto split: sum.splits)
  note res = temporals_at_min_max_ordered [of touch_ts constant_module True, OF v f1 f2 s]
  from res [THEN conjunct2, THEN conjunct2] r have "seqs_ordered (sequences r)" by blast
  with v f1 f2 bad r p show ?thesis
    by (intro conjI exI [of _ r]) simp_all
qed
section \<open>Synchronization of two sequence sets\<close>

lemma timestamp_cmp_internal_simps:
  "timestamp_cmp_internal a b < 0 \<longleftrightarrow> a < b"
  "timestamp_cmp_internal a b = 0 \<longleftrightarrow> a = b"
  "timestamp_cmp_internal a b > 0 \<longleftrightarrow> b < a"
  "timestamp_cmp_internal a b \<le> 0 \<longleftrightarrow> a \<le> b"
  "timestamp_cmp_internal a b \<ge> 0 \<longleftrightarrow> b \<le> a"
  by (auto simp: timestamp_cmp_internal_def)

lemma overlaps_period_period_internal_iff:
  "overlaps_period_period_internal p q \<longleftrightarrow>
     (lower p < upper q \<or> (lower p = upper q \<and> lower_inc p \<and> upper_inc q)) \<and>
     (lower q < upper p \<or> (lower q = upper p \<and> lower_inc q \<and> upper_inc p))"
  by (simp add: overlaps_period_period_internal_def Let_def timestamp_cmp_internal_simps)

lemma invalid_pair_iff:
  "invalid_pair a b \<longleftrightarrow>
     lower (period b) < upper (period a) \<or>
     (upper (period a) = lower (period b) \<and> upper_inc (period a) \<and> lower_inc (period b))"
  by (simp add: invalid_pair_def timestamp_cmp_internal_simps)

lemma contains_period_period_internal_iff:
  "contains_period_period_internal p q \<longleftrightarrow>
     (lower p < lower q \<or> (lower p = lower q \<and> (lower_inc p \<or> \<not> lower_inc q))) \<and>
     (upper q < upper p \<or> (upper p = upper q \<and> (upper_inc p \<or> \<not> upper_inc q)))"
  by (simp add: contains_period_period_internal_def Let_def timestamp_cmp_internal_simps)

lemma period_cmp_internal_neg:
  "period_cmp_internal p q < 0 \<longleftrightarrow>
     lower p < lower q \<or>
     (lower p = lower q \<and>
      ((lower_inc p \<and> \<not> lower_inc q) \<or>
       (lower_inc p = lower_inc q \<and>
        (upper p < upper q \<or> (upper p = upper q \<and> \<not> upper_inc p \<and> upper_inc q)))))"
  by (auto simp: period_cmp_internal_def Let_def timestamp_cmp_internal_def)

lemma period_lt_internal_iff:
  "period_lt_internal p q \<longleftrightarrow>
     lower p < lower q \<or>
     (lower p = lower q \<and>
      ((lower_inc p \<and> \<not> lower_inc q) \<or>
       (lower_inc p = lower_inc q \<and>
        (upper p < upper q \<or> (upper p = upper q \<and> \<not> upper_inc p \<and> upper_inc q)))))"
  unfolding period_lt_internal_def by (rule period_cmp_internal_neg)

lemma period_eq_internal_iff:
  "period_eq_internal p q \<longleftrightarrow>
     lower p = lower q \<and> upper p = upper q \<and> lower_inc p = lower_inc q \<and>
     upper_inc p = upper_inc q"
  by (simp add: period_eq_internal_def timestamp_cmp_internal_simps)

lemma not_overlaps_lt_before:
  assumes "\<not> overlaps_period_period_internal (period a) (period b)"
    and "period_valid (period a)" and "period_valid (period b)"
    and "period_lt_internal (period a) (period b)"
  shows "\<not> invalid_pair a b"
  using assms
  unfolding overlaps_period_period_internal_iff invalid_pair_iff period_valid_def
    period_lt_internal_iff
  by auto


lemma not_overlaps_not_lt_after:
  assumes "\<not> overlaps_period_period_internal (period a) (period b)"
    and "period_valid (period a)" and "period_valid (period b)"
    and "\<not> period_lt_internal (period a) (period b)"
  shows "\<not> invalid_pair b a"
  using assms
  unfolding overlaps_period_period_internal_iff invalid_pair_iff period_valid_def
    period_lt_internal_iff
  by auto

lemma before_not_overlaps:
  "\<not> invalid_pair a b \<Longrightarrow>
   \<not> overlaps_period_period_internal (period a) (period b) \<and>
   \<not> overlaps_period_period_internal (period b) (period a)"
  unfolding overlaps_period_period_internal_iff invalid_pair_iff
  by auto

lemma period_eq_overlaps:
  "period_eq_internal p q \<Longrightarrow> period_valid p \<Longrightarrow> overlaps_period_period_internal p q"
  unfolding overlaps_period_period_internal_iff period_eq_internal_iff period_valid_def
  by auto

lemma intersection_period_period_internal_Some:
  assumes "intersection_period_period_internal p q = Some r"
  shows "overlaps_period_period_internal p q"
    and "r = \<lparr>lower = max (lower p) (lower q), upper = min (upper p) (upper q),
       lower_inc = (if lower p = lower q then lower_inc p \<and> lower_inc q
                    else if lower p > lower q then lower_inc p else lower_inc q),
       upper_inc = (if upper p = upper q then upper_inc p \<and> upper_inc q
                    else if upper p < upper q then upper_inc p else upper_inc q)\<rparr>"
  using assms by (auto simp: intersection_period_period_internal_def split: if_splits)

lemma intersection_contained:
  assumes "intersection_period_period_internal p q = Some r"
  shows "contains_period_period_internal p r" and "contains_period_period_internal q r"
  unfolding contains_period_period_internal_iff
    intersection_period_period_internal_Some(2) [OF assms]
  by auto

lemma intersection_valid:
  assumes "intersection_period_period_internal p q = Some r"
    and "period_valid p" and "period_valid q"
  shows "period_valid r"
  using intersection_period_period_internal_Some(1) [OF assms(1)] assms(2,3)
  unfolding intersection_period_period_internal_Some(2) [OF assms(1)] period_valid_def
    overlaps_period_period_internal_iff
  by auto

lemma contained_before:
  assumes "\<not> invalid_pair a b"
    and "contains_period_period_internal (period a) (period a')"
    and "contains_period_period_internal (period b) (period b')"
  shows "\<not> invalid_pair a' b'"
  using assms
  unfolding invalid_pair_iff contains_period_period_internal_iff
  by auto

lemma overlaps_half:
  fixes lp uq lP uQ :: int
  assumes "lp < uq \<or> (lp = uq \<and> lip \<and> uiq)"
    and "lP < lp \<or> (lP = lp \<and> (liP \<or> \<not> lip))"
    and "uq < uQ \<or> (uQ = uq \<and> (uiQ \<or> \<not> uiq))"
  shows "lP < uQ \<or> (lP = uQ \<and> liP \<and> uiQ)"
  using assms by auto

lemma contained_overlaps:
  assumes "overlaps_period_period_internal p q"
    and "contains_period_period_internal P p"
    and "contains_period_period_internal Q q"
  shows "overlaps_period_period_internal P Q"
proof -
  note o = assms(1) [unfolded overlaps_period_period_internal_iff]
  note cP = assms(2) [unfolded contains_period_period_internal_iff]
  note cQ = assms(3) [unfolded contains_period_period_internal_iff]
  show ?thesis
    unfolding overlaps_period_period_internal_iff
    using overlaps_half [OF o [THEN conjunct1] cP [THEN conjunct1] cQ [THEN conjunct2]]
      overlaps_half [OF o [THEN conjunct2] cQ [THEN conjunct1] cP [THEN conjunct2]]
    by (rule conjI)
qed

lemma from_temporalseqarr_sequences:
  "temporals_from_temporalseqarr wp seqs0 count False = Inr ts \<Longrightarrow>
   sequences ts = take (nat count) seqs0"
  by (auto simp: temporals_from_temporalseqarr_def Let_def split: if_splits sum.splits list.splits)

text \<open>The timespan of a valid sequence set contains the period of each of its sequences.\<close>

lemma timespan_contains:
  assumes v: "valid_sequences (sequences ts)" and x: "x \<in> set (sequences ts)"
  shows "contains_period_period_internal (temporals_timespan ts) (period x)"
proof -
  let ?xs = "sequences ts"
  let ?n = "length ?xs"
  obtain k where k: "k < ?n" "x = ?xs ! k" using x by (auto simp: in_set_conv_nth)
  have n: "0 < ?n" using k(1) by (cases "sequences ts") simp_all
  have f: "k = 0 \<or> \<not> invalid_pair (?xs ! 0) x"
    using nth_pair_ok [OF v, of 0 k] k by auto
  have l: "k = ?n - 1 \<or> \<not> invalid_pair x (?xs ! (?n - 1))"
  proof (cases "k = ?n - 1")
    case False
    then have "k < ?n - 1" and "?n - 1 < ?n" using k(1) by simp_all
    from nth_pair_ok [OF v this] show ?thesis using k(2) by simp
  qed simp
  have pf: "period_valid (period (?xs ! 0))" using nth_period_valid [OF v n] .
  have pl: "period_valid (period (?xs ! (?n - 1)))"
    using nth_period_valid [OF v, of "?n - 1"] n by simp
  have px: "period_valid (period x)" using nth_period_valid [OF v k(1)] k(2) by simp
  have e: "nat (int ?n - 1) = ?n - 1" using n by simp
  have lo: "lower (period (?xs ! 0)) < lower (period x) \<or>
            (lower (period (?xs ! 0)) = lower (period x) \<and>
             (lower_inc (period (?xs ! 0)) \<or> \<not> lower_inc (period x)))"
  proof (cases "k = 0")
    case True
    then show ?thesis using k by simp
  next
    case False
    then have "\<not> invalid_pair (?xs ! 0) x" using f by simp
    then show ?thesis using pf unfolding invalid_pair_iff period_valid_def by auto
  qed
  have up: "upper (period x) < upper (period (?xs ! (?n - 1))) \<or>
            (upper (period (?xs ! (?n - 1))) = upper (period x) \<and>
             (upper_inc (period (?xs ! (?n - 1))) \<or> \<not> upper_inc (period x)))"
  proof (cases "k = ?n - 1")
    case True
    then show ?thesis using k by simp
  next
    case False
    then have "\<not> invalid_pair x (?xs ! (?n - 1))" using l by simp
    then show ?thesis using pl unfolding invalid_pair_iff period_valid_def by auto
  qed
  show ?thesis
    unfolding contains_period_period_internal_iff
    using lo up
    by (simp add: temporals_timespan_def Let_def period_set_def temporals_seq_n_def
        ts_count_def e)
qed

lemma overlapping_pair_timespans:
  assumes "valid_sequences (sequences ts1)" and "valid_sequences (sequences ts2)"
    and "x \<in> set (sequences ts1)" and "y \<in> set (sequences ts2)"
    and "overlaps_period_period_internal (period x) (period y)"
  shows "overlaps_period_period_internal (temporals_timespan ts1) (temporals_timespan ts2)"
  using contained_overlaps [OF assms(5) timespan_contains [OF assms(1,3)]
      timespan_contains [OF assms(2,4)]] .

text \<open>One round of the merge walk, and its end.\<close>

lemma synchronize_loop_step:
  assumes "i < ts_count ts1" and "j < ts_count ts2"
  shows "synchronize_loop sync crossings ts1 ts2 i j s1 s2 =
     synchronize_loop sync crossings ts1 ts2
       (if period_eq_internal (period (temporals_seq_n ts1 i)) (period (temporals_seq_n ts2 j)) \<or>
           period_lt_internal (period (temporals_seq_n ts1 i)) (period (temporals_seq_n ts2 j))
        then i + 1 else i)
       (if period_eq_internal (period (temporals_seq_n ts1 i)) (period (temporals_seq_n ts2 j)) \<or>
           \<not> period_lt_internal (period (temporals_seq_n ts1 i)) (period (temporals_seq_n ts2 j))
        then j + 1 else j)
       (case sync (temporals_seq_n ts1 i) (temporals_seq_n ts2 j) crossings of
          Some (a, b) \<Rightarrow> s1 @ [a] | None \<Rightarrow> s1)
       (case sync (temporals_seq_n ts1 i) (temporals_seq_n ts2 j) crossings of
          Some (a, b) \<Rightarrow> s2 @ [b] | None \<Rightarrow> s2)"
  using assms
  by (subst synchronize_loop.simps) (auto simp: Let_def split: option.splits)

lemma synchronize_loop_exit:
  assumes "\<not> (i < ts_count ts1 \<and> j < ts_count ts2)"
  shows "synchronize_loop sync crossings ts1 ts2 i j s1 s2 = (s1, s2)"
  by (subst synchronize_loop.simps) (simp only: assms if_False)

text \<open>
  The rule of the loop: what holds at the start and is kept by every round holds at the
  end, where one of the two cursors has left its sequence set.
\<close>

lemma synchronize_loop_invariant:
  assumes init: "P i j s1 s2"
    and step: "\<And>i j s1 s2. P i j s1 s2 \<Longrightarrow> i < ts_count ts1 \<Longrightarrow> j < ts_count ts2 \<Longrightarrow>
       P (if period_eq_internal (period (temporals_seq_n ts1 i)) (period (temporals_seq_n ts2 j)) \<or>
             period_lt_internal (period (temporals_seq_n ts1 i)) (period (temporals_seq_n ts2 j))
          then i + 1 else i)
         (if period_eq_internal (period (temporals_seq_n ts1 i)) (period (temporals_seq_n ts2 j)) \<or>
             \<not> period_lt_internal (period (temporals_seq_n ts1 i)) (period (temporals_seq_n ts2 j))
          then j + 1 else j)
         (case sync (temporals_seq_n ts1 i) (temporals_seq_n ts2 j) crossings of
            Some (a, b) \<Rightarrow> s1 @ [a] | None \<Rightarrow> s1)
         (case sync (temporals_seq_n ts1 i) (temporals_seq_n ts2 j) crossings of
            Some (a, b) \<Rightarrow> s2 @ [b] | None \<Rightarrow> s2)"
  shows "\<exists>i' j'. \<not> (i' < ts_count ts1 \<and> j' < ts_count ts2) \<and>
           P i' j' (fst (synchronize_loop sync crossings ts1 ts2 i j s1 s2))
                   (snd (synchronize_loop sync crossings ts1 ts2 i j s1 s2))"
  using init
proof (induction "nat (ts_count ts1 - i) + nat (ts_count ts2 - j)" arbitrary: i j s1 s2
       rule: less_induct)
  case less
  show ?case
  proof (cases "i < ts_count ts1 \<and> j < ts_count ts2")
    case False
    show ?thesis
      unfolding synchronize_loop_exit [OF False]
      using False less.prems by auto
  next
    case True
    then have i: "i < ts_count ts1" and j: "j < ts_count ts2" by simp_all
    let ?eq = "period_eq_internal (period (temporals_seq_n ts1 i)) (period (temporals_seq_n ts2 j))"
    let ?lt = "period_lt_internal (period (temporals_seq_n ts1 i)) (period (temporals_seq_n ts2 j))"
    let ?i = "if ?eq \<or> ?lt then i + 1 else i"
    let ?j = "if ?eq \<or> \<not> ?lt then j + 1 else j"
    have m: "nat (ts_count ts1 - ?i) + nat (ts_count ts2 - ?j) <
             nat (ts_count ts1 - i) + nat (ts_count ts2 - j)"
      using i j by auto
    show ?thesis
      unfolding synchronize_loop_step [OF i j]
      by (rule less.hyps [OF m step [OF less.prems i j]])
  qed
qed


text \<open>
  The merge walk on two valid sequence sets. The invariant: the two outputs have the same
  periods; each output period is the intersection of the periods of a sequence of
  \<open>ts1\<close> and a sequence of \<open>ts2\<close>; the first output is ordered and disjoint, and its last
  sequence lies inside a sequence that one of the cursors has passed; and as long as
  the output is empty, no sequence that a cursor has passed overlaps a sequence of the
  other set.
\<close>

lemma synchronize_loop_walk:
  assumes v1: "valid_sequences (sequences ts1)" and v2: "valid_sequences (sequences ts2)"
    and ok: "synchronizes_on_intersection sync crossings ts1 ts2"
  defines "r \<equiv> synchronize_loop sync crossings ts1 ts2 0 0 [] []"
  shows "map period (fst r) = map period (snd r)"
    and "seqs_ordered (fst r)"
    and "\<forall>a \<in> set (fst r). \<exists>x \<in> set (sequences ts1). \<exists>y \<in> set (sequences ts2).
           intersection_period_period_internal (period x) (period y) = Some (period a)"
    and "fst r = [] \<Longrightarrow> x \<in> set (sequences ts1) \<Longrightarrow> y \<in> set (sequences ts2) \<Longrightarrow>
         \<not> overlaps_period_period_internal (period x) (period y)"
proof -
  let ?xs = "sequences ts1"
  let ?ys = "sequences ts2"
  define A where "A = (\<lambda>s::TemporalSeq list. \<forall>a \<in> set s. \<exists>x \<in> set ?xs. \<exists>y \<in> set ?ys.
           intersection_period_period_internal (period x) (period y) = Some (period a))"
  define D where "D = (\<lambda>(i::int) (j::int) (s1::TemporalSeq list). s1 \<noteq> [] \<longrightarrow>
      (\<exists>k. k < nat i \<and> k < length ?xs \<and>
           contains_period_period_internal (period (?xs ! k)) (period (last s1))) \<or>
      (\<exists>k. k < nat j \<and> k < length ?ys \<and>
           contains_period_period_internal (period (?ys ! k)) (period (last s1))))"
  define E where "E = (\<lambda>(i::int) (j::int) (s1::TemporalSeq list). s1 = [] \<longrightarrow>
      (\<forall>k l. k < length ?xs \<and> l < length ?ys \<and> (k < nat i \<or> l < nat j) \<longrightarrow>
         \<not> overlaps_period_period_internal (period (?xs ! k)) (period (?ys ! l))))"
  define P where "P = (\<lambda>i j (s1::TemporalSeq list) (s2::TemporalSeq list). 0 \<le> i \<and> 0 \<le> j \<and>
      map period s1 = map period s2 \<and> A s1 \<and> seqs_ordered s1 \<and> D i j s1 \<and> E i j s1)"
  have init: "P 0 0 [] []" by (simp add: P_def A_def D_def E_def)
  have step: "P (if period_eq_internal (period (temporals_seq_n ts1 i)) (period (temporals_seq_n ts2 j)) \<or>
             period_lt_internal (period (temporals_seq_n ts1 i)) (period (temporals_seq_n ts2 j))
          then i + 1 else i)
         (if period_eq_internal (period (temporals_seq_n ts1 i)) (period (temporals_seq_n ts2 j)) \<or>
             \<not> period_lt_internal (period (temporals_seq_n ts1 i)) (period (temporals_seq_n ts2 j))
          then j + 1 else j)
         (case sync (temporals_seq_n ts1 i) (temporals_seq_n ts2 j) crossings of
            Some (a, b) \<Rightarrow> s1 @ [a] | None \<Rightarrow> s1)
         (case sync (temporals_seq_n ts1 i) (temporals_seq_n ts2 j) crossings of
            Some (a, b) \<Rightarrow> s2 @ [b] | None \<Rightarrow> s2)"
    if P: "P i j s1 s2" and i: "i < ts_count ts1" and j: "j < ts_count ts2" for i j s1 s2
  proof -
    let ?x = "temporals_seq_n ts1 i"
    let ?y = "temporals_seq_n ts2 j"
    let ?eq = "period_eq_internal (period ?x) (period ?y)"
    let ?lt = "period_lt_internal (period ?x) (period ?y)"
    let ?i = "if ?eq \<or> ?lt then i + 1 else i"
    let ?j = "if ?eq \<or> \<not> ?lt then j + 1 else j"
    have i0: "0 \<le> i" and j0: "0 \<le> j" and mp: "map period s1 = map period s2"
      and A: "A s1" and C: "seqs_ordered s1" and D: "D i j s1" and E: "E i j s1"
      using P by (simp_all add: P_def)
    have I: "nat i < length ?xs" using i i0 by (simp add: ts_count_def nat_less_iff)
    have J: "nat j < length ?ys" using j j0 by (simp add: ts_count_def nat_less_iff)
    have x: "?x = ?xs ! nat i" by (simp add: temporals_seq_n_def)
    have y: "?y = ?ys ! nat j" by (simp add: temporals_seq_n_def)
    have xm: "?x \<in> set ?xs" using I x by simp
    have ym: "?y \<in> set ?ys" using J y by simp
    have px: "period_valid (period ?x)" using nth_period_valid [OF v1 I] x by simp
    have py: "period_valid (period ?y)" using nth_period_valid [OF v2 J] y by simp
    have i'0: "0 \<le> ?i" "0 \<le> ?j" using i0 j0 by auto
    have ni: "nat (i + 1) = Suc (nat i)" using i0 by simp
    have nj: "nat (j + 1) = Suc (nat j)" using j0 by simp
    have c: "case sync ?x ?y crossings of
               None \<Rightarrow> \<not> overlaps_period_period_internal (period ?x) (period ?y)
             | Some (a, b) \<Rightarrow>
                 intersection_period_period_internal (period ?x) (period ?y) = Some (period a) \<and>
                 period b = period a"
      using ok xm ym unfolding synchronizes_on_intersection_def list_all_iff by blast
    show ?thesis
    proof (cases "sync ?x ?y crossings")
      case None
      then have no: "\<not> overlaps_period_period_internal (period ?x) (period ?y)"
        using c by simp
      have ne: "\<not> ?eq" using period_eq_overlaps [of "period ?x" "period ?y"] px no by blast
      have D': "D ?i ?j s1"
      proof (cases ?lt)
        case True
        then show ?thesis using D ne unfolding D_def ni by (auto simp: less_Suc_eq)
      next
        case False
        then show ?thesis using D ne unfolding D_def nj by (auto simp: less_Suc_eq)
      qed
      have E': "E ?i ?j s1"
        unfolding E_def
      proof (intro impI allI)
        fix k l
        assume e: "s1 = []"
          and kl: "k < length ?xs \<and> l < length ?ys \<and> (k < nat ?i \<or> l < nat ?j)"
        show "\<not> overlaps_period_period_internal (period (?xs ! k)) (period (?ys ! l))"
        proof (cases "k < nat i \<or> l < nat j")
          case True
          then show ?thesis using E e kl unfolding E_def by blast
        next
          case old: False
          show ?thesis
          proof (cases ?lt)
            case True
            have b: "\<not> invalid_pair ?x ?y" using not_overlaps_lt_before [OF no px py True] .
            have k: "k = nat i" using kl old True ne ni by auto
            have "\<not> invalid_pair ?x (?ys ! l)"
            proof (cases "l = nat j")
              case True
              then show ?thesis using b y by simp
            next
              case False
              then have "nat j < l" using old by simp
              from nth_pair_ok [OF v2 this] kl have "\<not> invalid_pair ?y (?ys ! l)"
                using y by simp
              from invalid_pair_trans [OF b py this] show ?thesis .
            qed
            from before_not_overlaps [OF this] show ?thesis using k x by simp
          next
            case False
            have b: "\<not> invalid_pair ?y ?x" using not_overlaps_not_lt_after [OF no px py False] .
            have l: "l = nat j" using kl old False ne nj by auto
            have "\<not> invalid_pair ?y (?xs ! k)"
            proof (cases "k = nat i")
              case True
              then show ?thesis using b x by simp
            next
              case False
              then have "nat i < k" using old by simp
              from nth_pair_ok [OF v1 this] kl have "\<not> invalid_pair ?x (?xs ! k)"
                using x by simp
              from invalid_pair_trans [OF b px this] show ?thesis .
            qed
            from before_not_overlaps [OF this] show ?thesis using l y by simp
          qed
        qed
      qed
      show ?thesis using None i'0 mp A C D' E' by (simp add: P_def)
    next
      case (Some ab)
      obtain a b where ab: "ab = (a, b)" by (cases ab)
      have inter: "intersection_period_period_internal (period ?x) (period ?y) = Some (period a)"
        and pb: "period b = period a"
        using c Some ab by simp_all
      have cx: "contains_period_period_internal (period ?x) (period a)"
        and cy: "contains_period_period_internal (period ?y) (period a)"
        using intersection_contained [OF inter] .
      have A': "A (s1 @ [a])" using A inter xm ym unfolding A_def by auto
      have C': "seqs_ordered (s1 @ [a])"
      proof (cases "s1 = []")
        case True
        then show ?thesis by simp
      next
        case False
        then consider
            (l) k where "k < nat i" "k < length ?xs"
              "contains_period_period_internal (period (?xs ! k)) (period (last s1))"
          | (r) k where "k < nat j" "k < length ?ys"
              "contains_period_period_internal (period (?ys ! k)) (period (last s1))"
          using D unfolding D_def by blast
        then have "\<not> invalid_pair (last s1) a"
        proof cases
          case l
          have "\<not> invalid_pair (?xs ! k) ?x" using nth_pair_ok [OF v1 l(1) I] x by simp
          from contained_before [OF this l(3) cx] show ?thesis .
        next
          case r
          have "\<not> invalid_pair (?ys ! k) ?y" using nth_pair_ok [OF v2 r(1) J] y by simp
          from contained_before [OF this r(3) cy] show ?thesis .
        qed
        then show ?thesis using C False by (simp add: seqs_ordered_append)
      qed
      have D': "D ?i ?j (s1 @ [a])"
      proof (cases "?eq \<or> ?lt")
        case True
        have "nat i < nat ?i \<and> nat i < length ?xs \<and>
              contains_period_period_internal (period (?xs ! nat i)) (period (last (s1 @ [a])))"
          using True I cx x ni by simp
        then show ?thesis unfolding D_def by blast
      next
        case False
        have "nat j < nat ?j \<and> nat j < length ?ys \<and>
              contains_period_period_internal (period (?ys ! nat j)) (period (last (s1 @ [a])))"
          using False J cy y nj by simp
        then show ?thesis unfolding D_def by blast
      qed
      have E': "E ?i ?j (s1 @ [a])" by (simp add: E_def)
      show ?thesis using Some ab i'0 mp pb A' C' D' E' by (simp add: P_def)
    qed
  qed
  from synchronize_loop_invariant [of P 0 0 "[]" "[]" ts1 ts2 sync crossings, OF init step]
  obtain i' j' where ex: "\<not> (i' < ts_count ts1 \<and> j' < ts_count ts2)"
    and P': "P i' j' (fst r) (snd r)"
    unfolding r_def by blast
  show "map period (fst r) = map period (snd r)" using P' by (simp add: P_def)
  show "seqs_ordered (fst r)" using P' by (simp add: P_def)
  show "\<forall>a \<in> set (fst r). \<exists>x \<in> set (sequences ts1). \<exists>y \<in> set (sequences ts2).
           intersection_period_period_internal (period x) (period y) = Some (period a)"
    using P' by (simp add: P_def A_def)
  assume e: "fst r = []" and xm: "x \<in> set (sequences ts1)" and ym: "y \<in> set (sequences ts2)"
  obtain k where k: "k < length ?xs" "x = ?xs ! k" using xm by (auto simp: in_set_conv_nth)
  obtain l where l: "l < length ?ys" "y = ?ys ! l" using ym by (auto simp: in_set_conv_nth)
  have "k < nat i' \<or> l < nat j'" using ex k(1) l(1) by (auto simp: ts_count_def)
  moreover have "E i' j' (fst r)" using P' by (simp add: P_def)
  ultimately show "\<not> overlaps_period_period_internal (period x) (period y)"
    using e k l unfolding E_def by blast
qed


lemma seqs_ordered_periods:
  assumes "map period xs = map period ys"
  shows "seqs_ordered xs = seqs_ordered ys"
proof -
  have len: "length xs = length ys" using assms by (rule map_eq_imp_length_eq)
  have "period (xs ! k) = period (ys ! k)" if "k < length xs" for k
    using assms that len by (metis nth_map)
  then show ?thesis
    unfolding seqs_ordered_nth invalid_pair_def len [symmetric] by simp
qed

text \<open>
  Claim C3. For valid sequence sets \<open>ts1\<close> and \<open>ts2\<close>, and a sequence-level
  synchronization that cuts two overlapping sequences down to the intersection of their
  periods, \<^verbatim>\<open>synchronize_temporals_temporals\<close> returns false exactly when the two
  bounding timespans do not overlap or the merge walk ends with \<open>k = 0\<close>, and that is
  exactly when no sequence of \<open>ts1\<close> overlaps a sequence of \<open>ts2\<close>: the walk never
  passes the first overlapping pair. The two constructor calls never raise the
  invalid-sequence-set error, because the pieces come out of the walk ordered and
  disjoint, and raise nothing at all without PostGIS. Whenever the function returns
  true, the two results are valid sequence sets with the same number of sequences, the
  \<open>i\<close>-th sequence of the first has the same period as the \<open>i\<close>-th sequence of the
  second, and that period is the intersection of the periods of a sequence of \<open>ts1\<close>
  and a sequence of \<open>ts2\<close>.
\<close>

theorem synchronize_temporals_temporals_result:
  assumes "valid_sequences (sequences ts1)" and "valid_sequences (sequences ts2)"
    and "synchronizes_on_intersection synchronize_temporalseq_temporalseq crossings ts1 ts2"
  shows
    "(synchronize_temporals_temporals with_postgis synchronize_temporalseq_temporalseq
        ts1 ts2 crossings = Inr None \<longleftrightarrow>
      \<not> overlaps_period_period_internal (temporals_timespan ts1) (temporals_timespan ts2) \<or>
      length (fst (synchronize_loop synchronize_temporalseq_temporalseq crossings ts1 ts2
                     0 0 [] [])) = 0) \<and>
     (synchronize_temporals_temporals with_postgis synchronize_temporalseq_temporalseq
        ts1 ts2 crossings = Inr None \<longleftrightarrow>
      \<not> (\<exists>seq1 \<in> set (sequences ts1). \<exists>seq2 \<in> set (sequences ts2).
           overlaps_period_period_internal (period seq1) (period seq2))) \<and>
     synchronize_temporals_temporals with_postgis synchronize_temporalseq_temporalseq
        ts1 ts2 crossings \<noteq> Inl NoSequence \<and>
     synchronize_temporals_temporals with_postgis synchronize_temporalseq_temporalseq
        ts1 ts2 crossings \<noteq> Inl InvalidSequence \<and>
     synchronize_temporals_temporals with_postgis synchronize_temporalseq_temporalseq
        ts1 ts2 crossings \<noteq> Inl OutOfBoundsRead \<and>
     (\<not> with_postgis \<longrightarrow>
        (\<forall>e. synchronize_temporals_temporals with_postgis synchronize_temporalseq_temporalseq
               ts1 ts2 crossings \<noteq> Inl e)) \<and>
     (\<forall>sync1 sync2.
        synchronize_temporals_temporals with_postgis synchronize_temporalseq_temporalseq
          ts1 ts2 crossings = Inr (Some (sync1, sync2)) \<longrightarrow>
        valid_sequences (sequences sync1) \<and> valid_sequences (sequences sync2) \<and>
        ts_count sync1 = ts_count sync2 \<and>
        (\<forall>i. 0 \<le> i \<and> i < ts_count sync1 \<longrightarrow>
             period (temporals_seq_n sync1 i) = period (temporals_seq_n sync2 i) \<and>
             (\<exists>seq1 \<in> set (sequences ts1). \<exists>seq2 \<in> set (sequences ts2).
                intersection_period_period_internal (period seq1) (period seq2) =
                  Some (period (temporals_seq_n sync1 i)))))"
proof -
  let ?w = "synchronize_loop synchronize_temporalseq_temporalseq crossings ts1 ts2 0 0 [] []"
  let ?r = "synchronize_temporals_temporals with_postgis synchronize_temporalseq_temporalseq
              ts1 ts2 crossings"
  let ?ov = "overlaps_period_period_internal (temporals_timespan ts1) (temporals_timespan ts2)"
  let ?pair = "\<exists>seq1 \<in> set (sequences ts1). \<exists>seq2 \<in> set (sequences ts2).
           overlaps_period_period_internal (period seq1) (period seq2)"
  obtain sequences1 sequences2 where w: "?w = (sequences1, sequences2)"
    by (cases ?w)
  note walk = synchronize_loop_walk [OF assms]
  have mp: "map period sequences1 = map period sequences2"
    using walk(1) by (simp only: w fst_conv snd_conv)
  then have len: "length sequences1 = length sequences2"
    by (rule map_eq_imp_length_eq)
  have o1: "seqs_ordered sequences1" using walk(2) by (simp only: w fst_conv)
  have o2: "seqs_ordered sequences2" using seqs_ordered_periods [OF mp] o1 by simp
  have A: "\<exists>x \<in> set (sequences ts1). \<exists>y \<in> set (sequences ts2).
           intersection_period_period_internal (period x) (period y) = Some (period a)"
    if "a \<in> set sequences1" for a
    using walk(3) that by (simp only: w fst_conv)
  have E: "\<not> overlaps_period_period_internal (period x) (period y)"
    if "sequences1 = []" "x \<in> set (sequences ts1)" "y \<in> set (sequences ts2)" for x y
  proof -
    have "fst ?w = []" using that(1) w by simp
    from walk(4) [OF this that(2,3)] show ?thesis .
  qed
  have ne_pair: ?pair if "sequences1 \<noteq> []"
  proof -
    have "hd sequences1 \<in> set sequences1" using that by simp
    from A [OF this] obtain x y where xy: "x \<in> set (sequences ts1)" "y \<in> set (sequences ts2)"
      "intersection_period_period_internal (period x) (period y) =
         Some (period (hd sequences1))" by blast
    from intersection_period_period_internal_Some(1) [OF xy(3)] xy(1,2) show ?thesis by blast
  qed
  have pair_span: ?ov if ?pair
    using that overlapping_pair_timespans [OF assms(1,2)] by blast
  have pair_ne: "sequences1 \<noteq> []" if ?pair using that E by blast
  have pv1: "period_valid (period a)" if "a \<in> set sequences1" for a
  proof -
    from A [OF that] obtain x y where xy: "x \<in> set (sequences ts1)" "y \<in> set (sequences ts2)"
      "intersection_period_period_internal (period x) (period y) = Some (period a)" by blast
    have "period_valid (period x)" "period_valid (period y)"
      using assms(1,2) xy(1,2) by (simp_all add: valid_sequences_def list_all_iff)
    from intersection_valid [OF xy(3) this] show ?thesis .
  qed
  have pv2: "period_valid (period b)" if "b \<in> set sequences2" for b
  proof -
    have "period b \<in> set (map period sequences2)" using that by simp
    then have "period b \<in> set (map period sequences1)" using mp by simp
    then show ?thesis using pv1 by auto
  qed
  let ?c1 = "temporals_from_temporalseqarr with_postgis sequences1
                (int (length sequences1)) False"
  let ?c2 = "temporals_from_temporalseqarr with_postgis sequences2
                (int (length sequences1)) False"
  have unfold: "?r =
     (if \<not> ?ov then Inr None
      else if sequences1 = [] then Inr None
      else
        (case ?c1 of
           Inl e \<Rightarrow> Inl e
         | Inr sync1 \<Rightarrow>
             (case ?c2 of
                Inl e \<Rightarrow> Inl e
              | Inr sync2 \<Rightarrow> Inr (Some (sync1, sync2)))))"
    by (simp add: synchronize_temporals_temporals_def Let_def w)
  have e1: "e \<noteq> NoSequence \<and> e \<noteq> OutOfBoundsRead \<and> e \<noteq> InvalidSequence \<and> with_postgis"
    if "sequences1 \<noteq> []" "?c1 = Inl e" for e
  proof -
    have c: "1 \<le> int (length sequences1)" "int (length sequences1) \<le> int (length sequences1)"
      using that(1) by (simp_all add: Suc_le_eq)
    from from_temporalseqarr_cases(2) [OF c that(2)] from_temporalseqarr_ordered [OF o1]
      that(2)
    show ?thesis by auto
  qed
  have e2: "e \<noteq> NoSequence \<and> e \<noteq> OutOfBoundsRead \<and> e \<noteq> InvalidSequence \<and> with_postgis"
    if "sequences1 \<noteq> []" "?c2 = Inl e" for e
  proof -
    have c: "1 \<le> int (length sequences1)" "int (length sequences1) \<le> int (length sequences2)"
    proof -
      show "1 \<le> int (length sequences1)" using that(1) by (simp add: Suc_le_eq)
      show "int (length sequences1) \<le> int (length sequences2)" using len by simp
    qed
    from from_temporalseqarr_cases(2) [OF c that(2)]
      from_temporalseqarr_ordered [OF o2, of with_postgis False] that(2) len
    show ?thesis by auto
  qed
  have err: "e \<noteq> NoSequence \<and> e \<noteq> OutOfBoundsRead \<and> e \<noteq> InvalidSequence \<and> with_postgis"
    if "?r = Inl e" for e
  proof -
    from that have ne: "sequences1 \<noteq> []" and "?c1 = Inl e \<or> ?c2 = Inl e"
      unfolding unfold by (auto split: if_splits sum.splits)
    then show ?thesis using e1 e2 by blast
  qed
  have a: "?r = Inr None \<longleftrightarrow> \<not> ?ov \<or> length (fst ?w) = 0"
    unfolding unfold w by (simp split: sum.splits)
  have b: "?r = Inr None \<longleftrightarrow> \<not> ?pair"
  proof
    assume "?r = Inr None"
    then have "\<not> ?ov \<or> sequences1 = []" using a w by simp
    then show "\<not> ?pair" using pair_span pair_ne by blast
  next
    assume "\<not> ?pair"
    then have "sequences1 = []" using ne_pair by blast
    then show "?r = Inr None" using a w by simp
  qed
  have d: "valid_sequences (sequences sync1) \<and> valid_sequences (sequences sync2) \<and>
        ts_count sync1 = ts_count sync2 \<and>
        (\<forall>i. 0 \<le> i \<and> i < ts_count sync1 \<longrightarrow>
             period (temporals_seq_n sync1 i) = period (temporals_seq_n sync2 i) \<and>
             (\<exists>seq1 \<in> set (sequences ts1). \<exists>seq2 \<in> set (sequences ts2).
                intersection_period_period_internal (period seq1) (period seq2) =
                  Some (period (temporals_seq_n sync1 i))))"
    if r: "?r = Inr (Some (sync1, sync2))" for sync1 sync2
  proof -
    from r have ne: "sequences1 \<noteq> []" and c1: "?c1 = Inr sync1" and c2: "?c2 = Inr sync2"
      unfolding unfold by (auto split: if_splits sum.splits)
    have s1: "sequences sync1 = sequences1"
      using from_temporalseqarr_sequences [OF c1] by simp
    have s2: "sequences sync2 = sequences2"
      using from_temporalseqarr_sequences [OF c2] len by simp
    have ne2: "sequences2 \<noteq> []" using ne len by (cases sequences2) simp_all
    have v1: "valid_sequences (sequences sync1)"
      unfolding s1 valid_sequences_def list_all_iff using ne o1 pv1 by blast
    have v2: "valid_sequences (sequences sync2)"
      unfolding s2 valid_sequences_def list_all_iff using ne2 o2 pv2 by blast
    have p: "period (sequences1 ! k) = period (sequences2 ! k)" if "k < length sequences1" for k
      using mp that len by (metis nth_map)
    have q: "\<exists>seq1 \<in> set (sequences ts1). \<exists>seq2 \<in> set (sequences ts2).
                intersection_period_period_internal (period seq1) (period seq2) =
                  Some (period (sequences1 ! k))" if "k < length sequences1" for k
      using A [of "sequences1 ! k"] that by simp
    have "period (temporals_seq_n sync1 i) = period (temporals_seq_n sync2 i) \<and>
             (\<exists>seq1 \<in> set (sequences ts1). \<exists>seq2 \<in> set (sequences ts2).
                intersection_period_period_internal (period seq1) (period seq2) =
                  Some (period (temporals_seq_n sync1 i)))"
      if "0 \<le> i \<and> i < ts_count sync1" for i
    proof -
      have k: "nat i < length sequences1" using that by (simp add: ts_count_def s1 nat_less_iff)
      show ?thesis using p [OF k] q [OF k] by (simp add: temporals_seq_n_def s1 s2)
    qed
    moreover have "ts_count sync1 = ts_count sync2" using len by (simp add: ts_count_def s1 s2)
    ultimately show ?thesis using v1 v2 by blast
  qed
  from a b err d show ?thesis by blast
qed

theorem synchronize_temporals_temporals_result_witness:
  "valid_sequences (sequences sync_ts1) \<and> valid_sequences (sequences sync_ts2) \<and>
   synchronizes_on_intersection sync_on_intersection False sync_ts1 sync_ts2 \<and>
   (\<exists>sync1 sync2.
      synchronize_temporals_temporals True sync_on_intersection sync_ts1 sync_ts2 False =
        Inr (Some (sync1, sync2)) \<and>
      map period (sequences sync1) =
        [\<lparr>lower = 5, upper = 10, lower_inc = True, upper_inc = True\<rparr>,
         \<lparr>lower = 20, upper = 25, lower_inc = True, upper_inc = True\<rparr>] \<and>
      ts_count sync1 = ts_count sync2 \<and>
      period (temporals_seq_n sync1 1) = period (temporals_seq_n sync2 1) \<and>
      valid_sequences (sequences sync2))"
proof -
  have v1: "valid_sequences (sequences sync_ts1)" by code_simp
  have v2: "valid_sequences (sequences sync_ts2)" by code_simp
  have h: "synchronizes_on_intersection sync_on_intersection False sync_ts1 sync_ts2"
    by code_simp
  have "case synchronize_temporals_temporals True sync_on_intersection sync_ts1 sync_ts2 False of
          Inr (Some (sync1, sync2)) \<Rightarrow>
            map period (sequences sync1) =
              [\<lparr>lower = 5, upper = 10, lower_inc = True, upper_inc = True\<rparr>,
               \<lparr>lower = 20, upper = 25, lower_inc = True, upper_inc = True\<rparr>] \<and>
            ts_count sync1 = 2
        | _ \<Rightarrow> False"
    by code_simp
  then obtain sync1 sync2 where
    r: "synchronize_temporals_temporals True sync_on_intersection sync_ts1 sync_ts2 False =
          Inr (Some (sync1, sync2))" and
    p: "map period (sequences sync1) =
            [\<lparr>lower = 5, upper = 10, lower_inc = True, upper_inc = True\<rparr>,
             \<lparr>lower = 20, upper = 25, lower_inc = True, upper_inc = True\<rparr>]" and
    c: "ts_count sync1 = 2"
    by (auto split: sum.splits option.splits)
  note res = synchronize_temporals_temporals_result
         [of sync_ts1 sync_ts2 sync_on_intersection False True, OF v1 v2 h]
  from res r
  have e: "valid_sequences (sequences sync2) \<and> ts_count sync1 = ts_count sync2 \<and>
        (\<forall>i. 0 \<le> i \<and> i < ts_count sync1 \<longrightarrow>
             period (temporals_seq_n sync1 i) = period (temporals_seq_n sync2 i))"
    by blast
  then have "period (temporals_seq_n sync1 1) = period (temporals_seq_n sync2 1)"
    using c by simp
  with e have "ts_count sync1 = ts_count sync2 \<and>
        period (temporals_seq_n sync1 1) = period (temporals_seq_n sync2 1) \<and>
        valid_sequences (sequences sync2)"
    by simp
  with v1 v2 h r p show ?thesis
    by (intro conjI exI [of _ sync1] exI [of _ sync2]) simp_all
qed

text \<open>
  Two runs of the walk. On \<open>{[20,30]}\<close> and \<open>{[0,10],[20,30]}\<close> the second cursor moves
  past \<open>[0,10]\<close> and the pair of the two \<open>[20,30]\<close> is found. On \<open>{[0,100]}\<close> and
  \<open>{[10,20],[30,40]}\<close> the period \<open>[0,100]\<close> is less than \<open>[10,20]\<close>, the first cursor
  moves on and the walk ends: the result is \<open>[10,20]\<close> alone, although \<open>[0,100]\<close> and
  \<open>[30,40]\<close> overlap.
\<close>

lemma synchronize_temporals_temporals_second_pair:
  "(case synchronize_temporals_temporals True sync_on_intersection late_ts1 late_ts2 False of
      Inr (Some (sync1, sync2)) \<Rightarrow>
        map period (sequences sync1) =
          [\<lparr>lower = 20, upper = 30, lower_inc = True, upper_inc = True\<rparr>] \<and>
        map period (sequences sync2) =
          [\<lparr>lower = 20, upper = 30, lower_inc = True, upper_inc = True\<rparr>]
    | _ \<Rightarrow> False)"
  by code_simp

lemma synchronize_temporals_temporals_skipped_pair:
  "overlaps_period_period_internal (period (temporals_seq_n wide_ts1 0))
     (period (temporals_seq_n wide_ts2 1)) \<and>
   (case synchronize_temporals_temporals True sync_on_intersection wide_ts1 wide_ts2 False of
      Inr (Some (sync1, sync2)) \<Rightarrow>
        map period (sequences sync1) =
          [\<lparr>lower = 10, upper = 20, lower_inc = True, upper_inc = True\<rparr>]
    | _ \<Rightarrow> False)"
  by code_simp


end
